theory Spec2Isabelle
  imports Main "HOL-Library.AList"
begin

section \<open>salsacsv: conversion between CSV text and records\<close>

text \<open>
  A shallow embedding of \<^verbatim>\<open>index.js\<close>. JavaScript strings are modelled as
  \<^typ>\<open>string\<close>, one \<^typ>\<open>char\<close> per code unit; the code treats every code unit
  other than the double quote, the line feed, the carriage return, the equals sign, the
  digits, the hyphen, the slash and the delimiter alike. Array indices, row numbers and
  column numbers are natural numbers. JavaScript computes with them as doubles, which is
  exact integer arithmetic for safe integers, those up to \<open>2\<^sup>5\<^sup>3 - 1\<close>; statements about
  numbers carry that bound.
\<close>

subsection \<open>Characters and number rendering\<close>

abbreviation dq :: char where "dq \<equiv> CHR 0x22"
abbreviation lf :: char where "lf \<equiv> CHR 0x0A"
abbreviation cr :: char where "cr \<equiv> CHR 0x0D"

text \<open>\<^verbatim>\<open>str.charAt(i)\<close>: the one-character string at index \<open>i\<close>, empty out of range.\<close>

definition charAt :: "string \<Rightarrow> nat \<Rightarrow> string" where
  "charAt s i = (if i < length s then [s ! i] else [])"

text \<open>
  The largest safe integer, \<open>2\<^sup>5\<^sup>3 - 1\<close>: up to it every integer is a JavaScript number,
  and \<^verbatim>\<open>%\<close>, \<^verbatim>\<open>Math.floor(n / 26)\<close> and the text of a number are exact.
\<close>

definition maxSafeInteger :: nat where
  "maxSafeInteger = 9007199254740991"

text \<open>
  The text JavaScript gives a non-negative safe integer when it is appended to a string
  (\<^verbatim>\<open>'' + n\<close>): its decimal numeral. Beyond the safe integers the text of a number is
  the shortest numeral that reads back as the same double, in exponent notation from
  \<open>10\<^sup>2\<^sup>1\<close> on; the function is the text of a number only up to \<open>maxSafeInteger\<close>.
\<close>

function natToString :: "nat \<Rightarrow> string" where
  "natToString n =
     (if n < 10 then charAt ''0123456789'' n
      else natToString (n div 10) @ charAt ''0123456789'' (n mod 10))"
  by pat_completeness auto
termination
  by (relation "measure id") auto

declare natToString.simps [simp del]

text \<open>
  The text of an integer number: a minus sign before the numeral of a negative one. It is
  the text of the JavaScript number for a safe integer.
\<close>

definition intToString :: "int \<Rightarrow> string" where
  "intToString i = (if i < 0 then CHR ''-'' # natToString (nat (- i)) else natToString (nat i))"

subsection \<open>Cell labels\<close>

text \<open>
  \<^verbatim>\<open>
  function columnLabel(columnNumber) {
      const letters = 'ABCDEFGHIJKLMNOPQRSTUVWXYZ';
      const letter = letters.charAt(columnNumber % 26);
      const concat = Math.floor(columnNumber / 26);
      if (concat > 0) { return columnLabel(concat - 1) + letter; }
      else { return letter; }
  }
  function cellLabel(rowNumber, columnNumber) {
      return columnLabel(columnNumber) + rowNumber;
  }
  \<close>
\<close>

definition letters :: string where
  "letters = ''ABCDEFGHIJKLMNOPQRSTUVWXYZ''"

function columnLabel :: "nat \<Rightarrow> string" where
  "columnLabel columnNumber =
     (if columnNumber div 26 > 0
      then columnLabel (columnNumber div 26 - 1) @ charAt letters (columnNumber mod 26)
      else charAt letters (columnNumber mod 26))"
  by pat_completeness auto
termination
  by (relation "measure id") auto

declare columnLabel.simps [simp del]

definition cellLabel :: "nat \<Rightarrow> nat \<Rightarrow> string" where
  "cellLabel rowNumber columnNumber = columnLabel columnNumber @ natToString rowNumber"

text \<open>
  The reading of a label against the spec's words: the value of a string of capital
  letters as a bijective base-26 numeral (A is 1, ..., Z is 26, no zero digit), and the
  value of a string of digits as a decimal numeral.
\<close>

definition letterValue :: "char \<Rightarrow> nat" where
  "letterValue ch = of_char ch - of_char (CHR ''A'') + 1"

definition bijective26 :: "string \<Rightarrow> nat" where
  "bijective26 s = foldl (\<lambda>acc ch. 26 * acc + letterValue ch) 0 s"

definition digitValue :: "char \<Rightarrow> nat" where
  "digitValue ch = of_char ch - of_char (CHR ''0'')"

definition decimalValue :: "string \<Rightarrow> nat" where
  "decimalValue s = foldl (\<lambda>acc ch. 10 * acc + digitValue ch) 0 s"

subsection \<open>Values, records and column descriptors\<close>

text \<open>
  JavaScript values as far as the library looks at them: it tests for \<^verbatim>\<open>null\<close> and
  \<^verbatim>\<open>undefined\<close>, for strings and for objects, and turns everything else into text.
  Numbers are integers here, and stand for JavaScript numbers when they are safe
  integers. A record (and any object) is a plain object, given by the association list of
  its own properties in insertion order.
\<close>

datatype jsval =
    JUndefined
  | JNull
  | JBool bool
  | JNum int
  | JStr string
  | JObj "(string \<times> jsval) list"

type_synonym obj = "(string \<times> jsval) list"

text \<open>
  A value is a safe number when it is no number, or a number that is a safe integer.
\<close>

definition safeNumber :: "jsval \<Rightarrow> bool" where
  "safeNumber v \<longleftrightarrow> (case v of JNum n \<Rightarrow> \<bar>n\<bar> \<le> int maxSafeInteger | _ \<Rightarrow> True)"

text \<open>
  \<^verbatim>\<open>obj[k]\<close>, for an own property of the record; a key that the record does not have
  reads \<^verbatim>\<open>undefined\<close> (the properties that a plain object inherits, such as
  \<^verbatim>\<open>toString\<close>, are not part of the association list).
\<close>

definition getProp :: "obj \<Rightarrow> string \<Rightarrow> jsval" where
  "getProp ob k = (case map_of ob k of None \<Rightarrow> JUndefined | Some v \<Rightarrow> v)"

text \<open>
  \<^verbatim>\<open>obj[k] = v\<close> on a plain object: an existing key keeps its place, a new one goes last.
  The key \<^verbatim>\<open>__proto__\<close> is the exception: the assignment runs the setter that every
  plain object inherits, which stores no own property (it replaces the prototype when
  \<open>v\<close> is an object, and does nothing otherwise).
\<close>

definition setProp :: "obj \<Rightarrow> string \<Rightarrow> jsval \<Rightarrow> obj" where
  "setProp ob k v = (if k = ''__proto__'' then ob else AList.update k v ob)"

text \<open>A property name that is \<^verbatim>\<open>undefined\<close> reads the property called "undefined".\<close>

definition propertyKey :: "string option \<Rightarrow> string" where
  "propertyKey k = (case k of None \<Rightarrow> ''undefined'' | Some s \<Rightarrow> s)"

text \<open>The details object handed to a converter and to a parser.\<close>

record converterDetails =
  cd_obj :: obj
  cd_key :: "string option"
  cd_row :: nat
  cd_column :: nat

record parserDetails =
  pd_key :: string
  pd_row :: nat
  pd_column :: nat

text \<open>
  A column descriptor. An absent \<^verbatim>\<open>header\<close>, \<^verbatim>\<open>key\<close>, \<^verbatim>\<open>converter\<close> or
  \<^verbatim>\<open>parser\<close> is \<open>None\<close>; \<^verbatim>\<open>required\<close> and \<^verbatim>\<open>parseEmpty\<close> are read for their
  truth value. Converters and parsers are functions that return a value.
\<close>

record column =
  header :: "string option"
  key :: "string option"
  required :: bool
  converter :: "(jsval \<Rightarrow> converterDetails \<Rightarrow> jsval) option"
  parser :: "(string \<Rightarrow> parserDetails \<Rightarrow> jsval) option"
  parseEmpty :: bool

text \<open>What a caller may put into the column list: a string, a descriptor, or anything else.\<close>

datatype columnInput =
    ColumnKey string
  | ColumnObject column
  | ColumnOther

text \<open>
  The options. \<^verbatim>\<open>includeHeader\<close> and \<^verbatim>\<open>includeEmptyValues\<close> are read for their truth
  value; the delimiter is a single character, or absent.
\<close>

record options =
  includeHeader :: bool
  includeEmptyValues :: bool
  delimiter :: "char option"

datatype jsError =
    TypeError
  | Error string

subsection \<open>escapeCSV and detectColumn\<close>

text \<open>
  \<^verbatim>\<open>
  function escapeCSV(str) {
      return `"${str.toString().replace(/"/g, '""')}"`;
  }
  \<close>
\<close>

definition escapeCSV :: "string \<Rightarrow> string" where
  "escapeCSV str = dq # concat (map (\<lambda>c. if c = dq then [dq, dq] else [c]) str) @ [dq]"

text \<open>
  \<^verbatim>\<open>
  function detectColumn(column) {
      const columnIsObject = Boolean(typeof column === 'object' && column !== null);
      const columnIsString = Boolean(typeof column === 'string');
      if (columnIsString && column.length > 0) { return { key: column }; }
      else if (columnIsObject) { return column; }
      else { return null; }
  }
  \<close>
  The result \<^verbatim>\<open>null\<close> is \<open>None\<close>.
\<close>

definition keyColumn :: "string \<Rightarrow> column" where
  "keyColumn k = \<lparr>header = None, key = Some k, required = False, converter = None,
     parser = None, parseEmpty = False\<rparr>"

fun detectColumn :: "columnInput \<Rightarrow> column option" where
  "detectColumn (ColumnKey s) = (if length s > 0 then Some (keyColumn s) else None)"
| "detectColumn (ColumnObject c) = Some c"
| "detectColumn ColumnOther = None"

subsection \<open>The tokenizer csvToArray\<close>

text \<open>
  \<^verbatim>\<open>
  const objPattern = new RegExp(
      '(\\' + delimiter + '|\\r?\\n|\\r|^)' +
      '(?:"([^"]*(?:""[^"]*)*)"|' +
      '([^"\\' + delimiter + '\\r\\n]*))', 'gi');
  \<close>
  The pattern is modelled for a delimiter whose escaped form denotes the character itself
  and which has no other letter case: any ASCII character that is neither a letter nor a
  digit, such as the comma, the semicolon, the tab or the vertical bar.

  Group 1 tries its alternatives in order: the delimiter, \<^verbatim>\<open>\r?\n\<close>, \<^verbatim>\<open>\r\<close>, and the
  start of the text (only at index 0, as the pattern has no \<^verbatim>\<open>m\<close> flag). The result is
  the length of what group 1 matches at index \<open>i\<close>.
\<close>

definition plainDelimiter :: "char \<Rightarrow> bool" where
  "plainDelimiter d \<longleftrightarrow>
     (of_char d :: nat) < 128 \<and>
     d \<notin> set ''abcdefghijklmnopqrstuvwxyzABCDEFGHIJKLMNOPQRSTUVWXYZ0123456789''"

definition matchSeparator :: "char \<Rightarrow> string \<Rightarrow> nat \<Rightarrow> nat option" where
  "matchSeparator delim str i =
     (let rest = drop i str in
      if take 1 rest = [delim] then Some 1
      else if take 2 rest = [cr, lf] then Some 2
      else if take 1 rest = [lf] then Some 1
      else if take 1 rest = [cr] then Some 1
      else if i = 0 then Some 0
      else None)"

text \<open>
  The quoted alternative \<^verbatim>\<open>"([^"]*(?:""[^"]*)*)"\<close>, on the text after the opening quote:
  the length of group 2, that is the offset of the closing quote. At a quote followed by
  a quote the greedy star first takes the pair and goes on; only if no closing quote
  follows does the matcher backtrack and close at the first quote of the pair. Without
  any quote left the alternative fails.
\<close>

fun scanQuoted :: "string \<Rightarrow> nat option" where
  "scanQuoted [] = None"
| "scanQuoted [c] = (if c = dq then Some 0 else None)"
| "scanQuoted (c # c' # cs) =
     (if c \<noteq> dq then map_option Suc (scanQuoted (c' # cs))
      else if c' = dq then
        (case scanQuoted cs of Some n \<Rightarrow> Some (n + 2) | None \<Rightarrow> Some 0)
      else Some 0)"

definition matchQuoted :: "string \<Rightarrow> nat option" where
  "matchQuoted field =
     (case field of [] \<Rightarrow> None | c # cs \<Rightarrow> if c = dq then scanQuoted cs else None)"

text \<open>The unquoted alternative \<^verbatim>\<open>([^"\,\r\n]*)\<close> takes the longest run of other characters.\<close>

definition isPlainChar :: "char \<Rightarrow> char \<Rightarrow> bool" where
  "isPlainChar delim c \<longleftrightarrow> c \<noteq> dq \<and> c \<noteq> delim \<and> c \<noteq> cr \<and> c \<noteq> lf"

text \<open>
  A match: the index after it (the new \<^verbatim>\<open>lastIndex\<close>) and the three groups, a group that
  took no part being \<open>None\<close> (\<^verbatim>\<open>undefined\<close>). Once group 1 matches, the whole pattern
  matches, since the unquoted alternative accepts the empty text.
\<close>

record regexMatch =
  matchEnd :: nat
  group1 :: string
  group2 :: "string option"
  group3 :: "string option"

definition matchAt :: "char \<Rightarrow> string \<Rightarrow> nat \<Rightarrow> regexMatch option" where
  "matchAt delim str i =
     (case matchSeparator delim str i of
        None \<Rightarrow> None
      | Some k \<Rightarrow>
          (let field = drop (i + k) str in
           case matchQuoted field of
             Some n \<Rightarrow>
               Some \<lparr>matchEnd = i + k + n + 2, group1 = take k (drop i str),
                     group2 = Some (take n (drop 1 field)), group3 = None\<rparr>
           | None \<Rightarrow>
               (let v = takeWhile (isPlainChar delim) field in
                Some \<lparr>matchEnd = i + k + length v, group1 = take k (drop i str),
                      group2 = None, group3 = Some v\<rparr>)))"

text \<open>
  \<^verbatim>\<open>objPattern.exec(str)\<close> for a global pattern: the first index from \<^verbatim>\<open>lastIndex\<close> on
  (up to and including the length of the text) at which the pattern matches, or
  \<^verbatim>\<open>null\<close>. On a match \<^verbatim>\<open>lastIndex\<close> becomes the end of the match, also when the match
  is empty.
\<close>

function regexExec :: "char \<Rightarrow> string \<Rightarrow> nat \<Rightarrow> regexMatch option" where
  "regexExec delim str lastIndex =
     (if lastIndex > length str then None
      else case matchAt delim str lastIndex of
             Some m \<Rightarrow> Some m
           | None \<Rightarrow> regexExec delim str (lastIndex + 1))"
  by pat_completeness auto
termination
  by (relation "measure (\<lambda>(delim, str, lastIndex). length str + 1 - lastIndex)") auto

declare regexExec.simps [simp del]

text \<open>\<^verbatim>\<open>matches[2].replace(/""/g, '"')\<close>\<close>

fun unescapeQuotes :: "string \<Rightarrow> string" where
  "unescapeQuotes [] = []"
| "unescapeQuotes [c] = [c]"
| "unescapeQuotes (c # c' # cs) =
     (if c = dq \<and> c' = dq then dq # unescapeQuotes cs else c # unescapeQuotes (c' # cs))"

text \<open>
  The body of the loop. A cell is a string or \<^verbatim>\<open>undefined\<close> (\<open>None\<close>): an empty quoted
  field leaves group 2 empty, which is falsy, and the cell becomes group 3, which took no
  part in the match.
  \<^verbatim>\<open>
      let matchedDelimiter = matches[1];
      let hasRowDelimiter = Boolean(matchedDelimiter.length > 0 && matchedDelimiter !== delimiter);
      if (hasRowDelimiter) { results.push([]); }
      if (matches[2]) { value = matches[2].replace(/""/g, '"'); }
      else { value = matches[3]; }
      results[results.length - 1].push(value);
  \<close>
\<close>

type_synonym cell = "string option"

definition cellOfMatch :: "regexMatch \<Rightarrow> cell" where
  "cellOfMatch m =
     (case group2 m of
        Some q \<Rightarrow> if q \<noteq> [] then Some (unescapeQuotes q) else group3 m
      | None \<Rightarrow> group3 m)"

definition pushValue :: "cell list list \<Rightarrow> cell \<Rightarrow> cell list list" where
  "pushValue results v = butlast results @ [last results @ [v]]"

definition loopBody :: "char \<Rightarrow> regexMatch \<Rightarrow> cell list list \<Rightarrow> cell list list" where
  "loopBody delim m results =
     (let matchedDelimiter = group1 m;
          hasRowDelimiter = (length matchedDelimiter > 0 \<and> matchedDelimiter \<noteq> [delim])
      in pushValue (if hasRowDelimiter then results @ [[]] else results) (cellOfMatch m))"

text \<open>
  \<^verbatim>\<open>
  let results = [[]];
  while (matches = objPattern.exec(str)) { ... }
  return results;
  \<close>
  The loop runs until \<^verbatim>\<open>exec\<close> finds no match. The value \<open>None\<close> of the loop is a loop
  that never ends.
\<close>

partial_function (option) csvLoop ::
  "char \<Rightarrow> string \<Rightarrow> nat \<Rightarrow> cell list list \<Rightarrow> cell list list option" where
  "csvLoop delim str lastIndex results =
     (case regexExec delim str lastIndex of
        None \<Rightarrow> Some results
      | Some m \<Rightarrow> csvLoop delim str (matchEnd m) (loopBody delim m results))"

declare csvLoop.simps [code]

definition csvToArray :: "string \<Rightarrow> char \<Rightarrow> cell list list option" where
  "csvToArray str delim = csvLoop delim str 0 [[]]"

subsection \<open>Arrays\<close>

text \<open>
  \<^verbatim>\<open>array.map(f)\<close> with \<open>f\<close> taking the element and its index, and
  \<^verbatim>\<open>array.reduce(f, init)\<close> with \<open>f\<close> taking the accumulator, the element and its index;
  the accumulator is a result or a thrown error, and nothing is called after a throw.
\<close>

definition mapIndexed :: "('a \<Rightarrow> nat \<Rightarrow> 'b) \<Rightarrow> 'a list \<Rightarrow> 'b list" where
  "mapIndexed f xs = map (\<lambda>(i, x). f x i) (enumerate 0 xs)"

definition reduceIndexed ::
  "('b \<Rightarrow> 'a \<Rightarrow> nat \<Rightarrow> 'e + 'b) \<Rightarrow> 'b \<Rightarrow> 'a list \<Rightarrow> 'e + 'b" where
  "reduceIndexed f init xs =
     foldl (\<lambda>acc (i, x). case acc of Inl e \<Rightarrow> Inl e | Inr r \<Rightarrow> f r x i) (Inr init) (enumerate 0 xs)"

text \<open>\<^verbatim>\<open>array.map(f)\<close> where \<open>f\<close> may throw: the first error ends the call.\<close>

fun collectResults :: "('e + 'b) list \<Rightarrow> 'e + 'b list" where
  "collectResults [] = Inr []"
| "collectResults (Inl e # rs) = Inl e"
| "collectResults (Inr r # rs) =
     (case collectResults rs of Inl e \<Rightarrow> Inl e | Inr xs \<Rightarrow> Inr (r # xs))"

text \<open>
  \<^verbatim>\<open>array.join(separator)\<close>: \<^verbatim>\<open>null\<close> and \<^verbatim>\<open>undefined\<close> elements give the empty
  text, every other element its text. The text of a number is that of the JavaScript
  number when the number is a safe integer.
\<close>

fun joinStrings :: "string \<Rightarrow> string list \<Rightarrow> string" where
  "joinStrings sep [] = []"
| "joinStrings sep [x] = x"
| "joinStrings sep (x # y # ys) = x @ sep @ joinStrings sep (y # ys)"

fun toStringJS :: "jsval \<Rightarrow> string" where
  "toStringJS JUndefined = ''undefined''"
| "toStringJS JNull = ''null''"
| "toStringJS (JBool b) = (if b then ''true'' else ''false'')"
| "toStringJS (JNum n) = intToString n"
| "toStringJS (JStr s) = s"
| "toStringJS (JObj ob) = ''[object Object]''"

definition elementText :: "jsval \<Rightarrow> string" where
  "elementText v = (if v = JUndefined \<or> v = JNull then [] else toStringJS v)"

definition arrayJoin :: "string \<Rightarrow> jsval list \<Rightarrow> string" where
  "arrayJoin sep vs = joinStrings sep (map elementText vs)"

subsection \<open>toCSV\<close>

text \<open>
  The two tests of \<^verbatim>\<open>shouldEscape\<close>: \<^verbatim>\<open>/^=/\<close> and \<^verbatim>\<open>/^\d+[-\/]\d+[-\/]\d+$/\<close>. The
  second pattern has to cover the whole string; each \<^verbatim>\<open>\d+\<close> takes the longest run of
  digits, and the character after it has to be the separator.
\<close>

definition isDigit :: "char \<Rightarrow> bool" where
  "isDigit c \<longleftrightarrow> c \<in> set ''0123456789''"

definition isDateSeparator :: "char \<Rightarrow> bool" where
  "isDateSeparator c \<longleftrightarrow> c = CHR ''-'' \<or> c = CHR ''/''"

definition startsWithEquals :: "string \<Rightarrow> bool" where
  "startsWithEquals s \<longleftrightarrow> take 1 s = ''=''"

definition looksLikeDate :: "string \<Rightarrow> bool" where
  "looksLikeDate s \<longleftrightarrow>
     (let d1 = takeWhile isDigit s; r1 = dropWhile isDigit s;
          d2 = takeWhile isDigit (drop 1 r1); r2 = dropWhile isDigit (drop 1 r1);
          d3 = drop 1 r2
      in d1 \<noteq> [] \<and> r1 \<noteq> [] \<and> isDateSeparator (hd r1) \<and>
         d2 \<noteq> [] \<and> r2 \<noteq> [] \<and> isDateSeparator (hd r2) \<and>
         d3 \<noteq> [] \<and> list_all isDigit d3)"

text \<open>
  \<^verbatim>\<open>
  const shouldEscape = Boolean(
      typeof cellValue === 'string' && cellValue.length > 0 &&
      !/^=/.test(cellValue) && !/^\d+[-\/]\d+[-\/]\d+$/.test(cellValue));
  \<close>
\<close>

fun shouldEscape :: "jsval \<Rightarrow> bool" where
  "shouldEscape (JStr s) \<longleftrightarrow> length s > 0 \<and> \<not> startsWithEquals s \<and> \<not> looksLikeDate s"
| "shouldEscape v \<longleftrightarrow> False"

fun isObject :: "jsval \<Rightarrow> bool" where
  "isObject (JObj ob) = True"
| "isObject v = False"

text \<open>
  The last steps of \<^verbatim>\<open>processColumn\<close> in \<^verbatim>\<open>toCSV\<close>, from the converted value on:
  \<^verbatim>\<open>
      const canClear = Boolean(cellValue == null || typeof cellValue === 'object');
      if (canClear) { cellValue = ''; }
      const shouldEscape = ...;
      if (shouldEscape) { cellValue = escapeCSV(cellValue); }
      return cellValue;
  \<close>
\<close>

definition finishCell :: "jsval \<Rightarrow> jsval" where
  "finishCell v =
     (let canClear = (v = JUndefined \<or> v = JNull \<or> isObject v);
          cellValue = (if canClear then JStr [] else v)
      in if shouldEscape cellValue then JStr (escapeCSV (toStringJS cellValue)) else cellValue)"

text \<open>
  \<^verbatim>\<open>
  const processColumn = (column, columnIndex) => {
      if (column == null) { return ''; }
      const {key, converter} = column;
      let cellValue = obj[key];
      if (typeof converter === 'function') {
          cellValue = converter(cellValue, {obj, key, row: rowIndex + startIndex + 1, column: columnIndex});
      }
      ...
  };
  \<close>
\<close>

definition toCSV_processColumn ::
  "nat \<Rightarrow> obj \<Rightarrow> nat \<Rightarrow> column option \<Rightarrow> nat \<Rightarrow> jsval" where
  "toCSV_processColumn startIndex ob rowIndex col columnIndex =
     (case col of
        None \<Rightarrow> JStr []
      | Some c \<Rightarrow>
          (let cellValue = getProp ob (propertyKey (key c));
               cellValue =
                 (case converter c of
                    Some f \<Rightarrow>
                      f cellValue \<lparr>cd_obj = ob, cd_key = key c,
                                   cd_row = rowIndex + startIndex + 1, cd_column = columnIndex\<rparr>
                  | None \<Rightarrow> cellValue)
           in finishCell cellValue))"

text \<open>\<^verbatim>\<open>getLine\<close>: \<^verbatim>\<open>columns.map(processColumn).join(delimiter)\<close>\<close>

definition getLine :: "column option list \<Rightarrow> char \<Rightarrow> nat \<Rightarrow> obj \<Rightarrow> nat \<Rightarrow> string" where
  "getLine columns delim startIndex ob rowIndex =
     arrayJoin [delim] (mapIndexed (toCSV_processColumn startIndex ob rowIndex) columns)"

text \<open>
  The header line:
  \<^verbatim>\<open>
  columns.map((column) => {
      const header = (column && column.header);
      if (typeof header === 'string' && header.length > 0) { return escapeCSV(header); }
      else { return ''; }
  }).join(delimiter)
  \<close>
\<close>

definition headerCell :: "column option \<Rightarrow> jsval" where
  "headerCell col =
     (case col of
        None \<Rightarrow> JStr []
      | Some c \<Rightarrow>
          (case header c of
             Some h \<Rightarrow> if length h > 0 then JStr (escapeCSV h) else JStr []
           | None \<Rightarrow> JStr []))"

definition headerLine :: "column option list \<Rightarrow> char \<Rightarrow> string" where
  "headerLine columns delim = arrayJoin [delim] (map headerCell columns)"

text \<open>
  \<^verbatim>\<open>Object.keys(obj)\<close>: first the keys that are array indices (the numerals without
  leading zero of the numbers up to \<open>2\<^sup>3\<^sup>2 - 2\<close>) in ascending order, then the other keys
  in insertion order.
\<close>

definition isArrayIndex :: "string \<Rightarrow> bool" where
  "isArrayIndex k \<longleftrightarrow>
     k \<noteq> [] \<and> list_all isDigit k \<and> (k = ''0'' \<or> hd k \<noteq> CHR ''0'') \<and>
     decimalValue k < 4294967295"

definition objectKeys :: "obj \<Rightarrow> string list" where
  "objectKeys ob =
     (let ks = map fst ob in
      sort_key decimalValue (filter isArrayIndex ks) @ filter (\<lambda>k. \<not> isArrayIndex k) ks)"

text \<open>
  \<^verbatim>\<open>detectColumnsFromJSON\<close>: the keys of the first record (none without a first record),
  each normalised by \<^verbatim>\<open>detectColumn\<close> and given its key as header when a header line is
  wanted.
  \<^verbatim>\<open>
  const keys = Object.keys(rows[0] || {});
  const format = (column, i) => {
      if (column !== null && includeHeader) { column.header = keys[i]; }
      return column;
  };
  return keys.map(detectColumn).map(format);
  \<close>
\<close>

definition detectColumnsFromJSON :: "obj list \<Rightarrow> options \<Rightarrow> column option list" where
  "detectColumnsFromJSON rows opts =
     (let keys = (case rows of [] \<Rightarrow> [] | r # rs \<Rightarrow> objectKeys r) in
      mapIndexed
        (\<lambda>col i. case col of
                    None \<Rightarrow> None
                  | Some c \<Rightarrow> if includeHeader opts then Some (c\<lparr>header := Some (keys ! i)\<rparr>) else Some c)
        (map (\<lambda>k. detectColumn (ColumnKey k)) keys))"

definition delimiterOf :: "options \<Rightarrow> char" where
  "delimiterOf opts = (case delimiter opts of None \<Rightarrow> CHR '','' | Some d \<Rightarrow> d)"

definition startIndexOf :: "options \<Rightarrow> nat" where
  "startIndexOf opts = (if includeHeader opts then 1 else 0)"

text \<open>
  \<^verbatim>\<open>
  function toCSV(rows, columns, options = {}) {
      if (!columns) { columns = detectColumnsFromJSON(rows, options); }
      else { columns = columns.map(detectColumn); }
      const {includeHeader} = options;
      const delimiter = options.delimiter || ',';
      const startIndex = includeHeader ? 1 : 0;
      let lines = rows.map(getLine);
      if (includeHeader) { lines = [header, ...lines]; }
      return lines.join('\n');
  }
  \<close>
  The rows are a list of records (so the check \<^verbatim>\<open>Array.isArray(rows)\<close> passes), the
  columns a list or absent (\<open>None\<close>).
\<close>

definition normalizeColumns_toCSV ::
  "obj list \<Rightarrow> columnInput list option \<Rightarrow> options \<Rightarrow> column option list" where
  "normalizeColumns_toCSV rows columns opts =
     (case columns of
        None \<Rightarrow> detectColumnsFromJSON rows opts
      | Some cs \<Rightarrow> map detectColumn cs)"

definition toCSV_lines :: "obj list \<Rightarrow> columnInput list option \<Rightarrow> options \<Rightarrow> string list" where
  "toCSV_lines rows columns opts =
     (let cols = normalizeColumns_toCSV rows columns opts;
          delim = delimiterOf opts;
          startIndex = startIndexOf opts;
          lines = mapIndexed (getLine cols delim startIndex) rows
      in if includeHeader opts then headerLine cols delim # lines else lines)"

definition toCSV :: "obj list \<Rightarrow> columnInput list option \<Rightarrow> options \<Rightarrow> string" where
  "toCSV rows columns opts = joinStrings [lf] (toCSV_lines rows columns opts)"

subsection \<open>fromCSV\<close>

text \<open>
  The pre-processing of the text:
  \<^verbatim>\<open>
  csvStr = csvStr
      .replace(/\n{2,}/g, '\n')
      .replace(/(\n$|^\n)/, '');
  \<close>
  The first replacement is global. The second pattern has no \<^verbatim>\<open>g\<close> flag, so only its
  first match is replaced: the line feed at index 0 if there is one, and otherwise the line
  feed that ends the text.
\<close>

fun collapseLineBreaks :: "string \<Rightarrow> string" where
  "collapseLineBreaks [] = []"
| "collapseLineBreaks [c] = [c]"
| "collapseLineBreaks (c # c' # cs) =
     (if c = lf \<and> c' = lf then collapseLineBreaks (c' # cs)
      else c # collapseLineBreaks (c' # cs))"

definition stripLineBreak :: "string \<Rightarrow> string" where
  "stripLineBreak s =
     (if take 1 s = [lf] then drop 1 s
      else if s \<noteq> [] \<and> last s = lf then butlast s
      else s)"

definition preprocess :: "string \<Rightarrow> string" where
  "preprocess csvStr = stripLineBreak (collapseLineBreaks csvStr)"

text \<open>
  \<^verbatim>\<open>
  function detectColumnsFromCSV(csvStr, options = {}) {
      const firstLine = csvStr.split('\n')[0];
      const split = csvToArray(firstLine, delimiter)[0] || [];
      if (includeHeader) { columns = split; }
      else { columns = split.map((value, i) => 'col' + (i + 1)); }
      return columns.map(detectColumn);
  }
  \<close>
\<close>

definition cellInput :: "cell \<Rightarrow> columnInput" where
  "cellInput v = (case v of None \<Rightarrow> ColumnOther | Some s \<Rightarrow> ColumnKey s)"

definition detectColumnsFromCSV :: "string \<Rightarrow> options \<Rightarrow> column option list option" where
  "detectColumnsFromCSV csvStr opts =
     (let firstLine = takeWhile (\<lambda>c. c \<noteq> lf) csvStr in
      case csvToArray firstLine (delimiterOf opts) of
        None \<Rightarrow> None
      | Some results \<Rightarrow>
          (let split = (case results of [] \<Rightarrow> [] | r # rs \<Rightarrow> r);
               columns =
                 (if includeHeader opts then map cellInput split
                  else mapIndexed (\<lambda>v i. ColumnKey (''col'' @ natToString (i + 1))) split)
           in Some (map detectColumn columns)))"

text \<open>
  \<^verbatim>\<open>processColumn\<close> of \<^verbatim>\<open>fromCSV\<close>, the function reduced over the columns of a line.
  \<^verbatim>\<open>
      const validColumn = Boolean(column != null && column.key);
      if (!validColumn) { return result; }
      const {key, required, parser, parseEmpty} = column;
      let cellValue = line[columnIndex];
      const canParse = Boolean(cellValue !== undefined && typeof parser === 'function' &&
                               (parseEmpty || cellValue !== ''));
      if (canParse) {
          cellValue = parser(cellValue, {key, row: rowIndex + startIndex + 1, column: columnIndex});
      }
      const isEmpty = Boolean(cellValue == null || cellValue === '');
      const canAssign = Boolean(includeEmptyValues || !isEmpty);
      const hasError = (required && isEmpty);
      if (hasError) { throw new Error(`Required column ${key} is empty`); }
      else if (canAssign) { result[key] = cellValue; }
      return result;
  \<close>
\<close>

definition rawCell :: "cell list \<Rightarrow> nat \<Rightarrow> cell" where
  "rawCell line columnIndex = (if columnIndex < length line then line ! columnIndex else None)"

definition parsedValue :: "column \<Rightarrow> string \<Rightarrow> nat \<Rightarrow> nat \<Rightarrow> nat \<Rightarrow> cell \<Rightarrow> jsval" where
  "parsedValue c k startIndex rowIndex columnIndex raw =
     (case raw of
        None \<Rightarrow> JUndefined
      | Some s \<Rightarrow>
          (case parser c of
             Some p \<Rightarrow>
               if parseEmpty c \<or> s \<noteq> []
               then p s \<lparr>pd_key = k, pd_row = rowIndex + startIndex + 1, pd_column = columnIndex\<rparr>
               else JStr s
           | None \<Rightarrow> JStr s))"

definition isEmptyValue :: "jsval \<Rightarrow> bool" where
  "isEmptyValue v \<longleftrightarrow> v = JUndefined \<or> v = JNull \<or> v = JStr []"

definition requiredMessage :: "string \<Rightarrow> string" where
  "requiredMessage k = ''Required column '' @ k @ '' is empty''"

definition fromCSV_processColumn ::
  "bool \<Rightarrow> nat \<Rightarrow> cell list \<Rightarrow> nat \<Rightarrow> obj \<Rightarrow> column option \<Rightarrow> nat \<Rightarrow> jsError + obj" where
  "fromCSV_processColumn inclEmpty startIndex line rowIndex result col columnIndex =
     (case col of
        None \<Rightarrow> Inr result
      | Some c \<Rightarrow>
          (case key c of
             None \<Rightarrow> Inr result
           | Some k \<Rightarrow>
               if k = [] then Inr result
               else
                 (let cellValue = parsedValue c k startIndex rowIndex columnIndex (rawCell line columnIndex);
                      isEmpty = isEmptyValue cellValue;
                      canAssign = (inclEmpty \<or> \<not> isEmpty);
                      hasError = (required c \<and> isEmpty)
                  in if hasError then Inl (Error (requiredMessage k))
                     else if canAssign then Inr (setProp result k cellValue)
                     else Inr result)))"

text \<open>\<^verbatim>\<open>getRow\<close>: \<^verbatim>\<open>columns.reduce(processColumn, {})\<close>\<close>

definition getRow ::
  "column option list \<Rightarrow> bool \<Rightarrow> nat \<Rightarrow> cell list \<Rightarrow> nat \<Rightarrow> jsError + obj" where
  "getRow columns inclEmpty startIndex line rowIndex =
     reduceIndexed (fromCSV_processColumn inclEmpty startIndex line rowIndex) [] columns"

text \<open>
  \<^verbatim>\<open>
  function fromCSV(csvStr, columns, options = {}) {
      csvStr = csvStr.replace(/\n{2,}/g, '\n').replace(/(\n$|^\n)/, '');
      const useDefaultColumns = Boolean(!columns && csvStr.length > 0);
      if (useDefaultColumns) { columns = detectColumnsFromCSV(csvStr, options); }
      else { columns = columns.map(detectColumn); }
      const csvLines = csvToArray(csvStr, delimiter).slice(startIndex);
      const rows = csvLines.map(getRow);
      return rows;
  }
  \<close>
  The text is a string (so the check \<^verbatim>\<open>typeof csvStr !== 'string'\<close> passes). The
  column list is absent (\<open>None\<close>, for \<^verbatim>\<open>null\<close> and \<^verbatim>\<open>undefined\<close>) or a list; calling
  \<^verbatim>\<open>map\<close> on an absent list throws a type error. The result is \<open>None\<close> when the call
  does not return, \<open>Some (Inl e)\<close> when it throws \<open>e\<close>, and \<open>Some (Inr rows)\<close> when it
  returns \<open>rows\<close>.
\<close>

definition normalizeColumns_fromCSV ::
  "string \<Rightarrow> columnInput list option \<Rightarrow> options \<Rightarrow> (jsError + column option list) option" where
  "normalizeColumns_fromCSV csvStr columns opts =
     (let useDefaultColumns = (columns = None \<and> length csvStr > 0) in
      if useDefaultColumns then map_option Inr (detectColumnsFromCSV csvStr opts)
      else (case columns of
              None \<Rightarrow> Some (Inl TypeError)
            | Some cs \<Rightarrow> Some (Inr (map detectColumn cs))))"

definition fromCSV ::
  "string \<Rightarrow> columnInput list option \<Rightarrow> options \<Rightarrow> (jsError + obj list) option" where
  "fromCSV csvStr columns opts =
     (let csvStr' = preprocess csvStr;
          delim = delimiterOf opts;
          startIndex = startIndexOf opts
      in case normalizeColumns_fromCSV csvStr' columns opts of
           None \<Rightarrow> None
         | Some (Inl e) \<Rightarrow> Some (Inl e)
         | Some (Inr cols) \<Rightarrow>
             (case csvToArray csvStr' delim of
                None \<Rightarrow> None
              | Some results \<Rightarrow>
                  Some (collectResults
                          (mapIndexed (getRow cols (includeEmptyValues opts) startIndex)
                             (drop startIndex results)))))"

subsection \<open>Notions used in the statements\<close>

text \<open>
  The date-like pattern in words: digits, a hyphen or slash, digits, a hyphen or slash,
  digits, and nothing else.
\<close>

definition matchesDatePattern :: "string \<Rightarrow> bool" where
  "matchesDatePattern s \<longleftrightarrow>
     (\<exists>d1 s1 d2 s2 d3.
        s = d1 @ [s1] @ d2 @ [s2] @ d3 \<and>
        d1 \<noteq> [] \<and> list_all isDigit d1 \<and> isDateSeparator s1 \<and>
        d2 \<noteq> [] \<and> list_all isDigit d2 \<and> isDateSeparator s2 \<and>
        d3 \<noteq> [] \<and> list_all isDigit d3)"

text \<open>The number of header lines before the data: 1 with \<^verbatim>\<open>includeHeader\<close>, else 0.\<close>

definition headerOffset :: "options \<Rightarrow> nat" where
  "headerOffset opts = (if includeHeader opts then 1 else 0)"

text \<open>
  The cell of a column for a record, with the details object given from outside, and the
  step of the decoder for a column, with the row and column numbers given from outside.
  They serve to state which details the code passes.
\<close>

definition encodeCellWith :: "column option \<Rightarrow> obj \<Rightarrow> nat \<Rightarrow> nat \<Rightarrow> jsval" where
  "encodeCellWith col ob rowNumber columnNumber =
     (case col of
        None \<Rightarrow> JStr []
      | Some c \<Rightarrow>
          finishCell
            (case converter c of
               Some f \<Rightarrow>
                 f (getProp ob (propertyKey (key c)))
                   \<lparr>cd_obj = ob, cd_key = key c, cd_row = rowNumber, cd_column = columnNumber\<rparr>
             | None \<Rightarrow> getProp ob (propertyKey (key c))))"

definition decodedValueWith :: "column \<Rightarrow> string \<Rightarrow> cell \<Rightarrow> nat \<Rightarrow> nat \<Rightarrow> jsval" where
  "decodedValueWith c k raw rowNumber columnNumber =
     (case raw of
        None \<Rightarrow> JUndefined
      | Some s \<Rightarrow>
          (case parser c of
             Some p \<Rightarrow>
               if parseEmpty c \<or> s \<noteq> []
               then p s \<lparr>pd_key = k, pd_row = rowNumber, pd_column = columnNumber\<rparr>
               else JStr s
           | None \<Rightarrow> JStr s))"

definition decodeStepWith ::
  "bool \<Rightarrow> cell list \<Rightarrow> obj \<Rightarrow> column option \<Rightarrow> nat \<Rightarrow> nat \<Rightarrow> jsError + obj" where
  "decodeStepWith inclEmpty line result col rowNumber columnNumber =
     (case col of
        None \<Rightarrow> Inr result
      | Some c \<Rightarrow>
          (case key c of
             None \<Rightarrow> Inr result
           | Some k \<Rightarrow>
               if k = [] then Inr result
               else
                 (let v = decodedValueWith c k (rawCell line columnNumber) rowNumber columnNumber in
                  if required c \<and> isEmptyValue v then Inl (Error (requiredMessage k))
                  else if inclEmpty \<or> \<not> isEmptyValue v then Inr (setProp result k v)
                  else Inr result)))"

definition decodeRowWith ::
  "column option list \<Rightarrow> bool \<Rightarrow> cell list \<Rightarrow> nat \<Rightarrow> jsError + obj" where
  "decodeRowWith cols inclEmpty line rowNumber =
     foldl (\<lambda>acc c. case acc of
                      Inl e \<Rightarrow> Inl e
                    | Inr result \<Rightarrow> decodeStepWith inclEmpty line result (cols ! c) rowNumber c)
       (Inr []) [0..<length cols]"

text \<open>
  A cell that stops the decoder: column \<open>c\<close> has a key, is marked required, and its
  value after parsing is empty for the line with data index \<open>r\<close>. The key of a column.
\<close>

definition requiredCellEmpty ::
  "column option list \<Rightarrow> nat \<Rightarrow> cell list \<Rightarrow> nat \<Rightarrow> nat \<Rightarrow> bool" where
  "requiredCellEmpty cols startIndex line r c \<longleftrightarrow>
     c < length cols \<and>
     (case cols ! c of
        None \<Rightarrow> False
      | Some col \<Rightarrow>
          (case key col of
             None \<Rightarrow> False
           | Some k \<Rightarrow>
               k \<noteq> [] \<and> required col \<and>
               isEmptyValue (parsedValue col k startIndex r c (rawCell line c))))"

definition columnKey :: "column option \<Rightarrow> string" where
  "columnKey col = (case col of None \<Rightarrow> [] | Some c \<Rightarrow> (case key c of None \<Rightarrow> [] | Some k \<Rightarrow> k))"

text \<open>
  For the round trip: a text without two line feeds in a row; the texts of cells that the
  tokenizer reads back, for a delimiter \<open>d\<close>, namely an escaped non-empty string without
  two line feeds in a row, or a non-empty text free of quotes, delimiters and line breaks;
  and the string the tokenizer yields for such a text.
\<close>

fun noDoubleLf :: "string \<Rightarrow> bool" where
  "noDoubleLf [] \<longleftrightarrow> True"
| "noDoubleLf [c] \<longleftrightarrow> True"
| "noDoubleLf (c # c' # cs) \<longleftrightarrow> \<not> (c = lf \<and> c' = lf) \<and> noDoubleLf (c' # cs)"

definition escBody :: "string \<Rightarrow> string" where
  "escBody v = concat (map (\<lambda>c. if c = dq then [dq, dq] else [c]) v)"

definition quotedCellText :: "string \<Rightarrow> bool" where
  "quotedCellText t \<longleftrightarrow> (\<exists>v. t = escapeCSV v \<and> v \<noteq> [] \<and> noDoubleLf v)"

definition plainCellText :: "char \<Rightarrow> string \<Rightarrow> bool" where
  "plainCellText d t \<longleftrightarrow> t \<noteq> [] \<and> list_all (isPlainChar d) t"

definition goodCellText :: "char \<Rightarrow> string \<Rightarrow> bool" where
  "goodCellText d t \<longleftrightarrow> quotedCellText t \<or> plainCellText d t"

definition cellTextValue :: "string \<Rightarrow> string" where
  "cellTextValue t = (if take 1 t = [dq] then unescapeQuotes (butlast (drop 1 t)) else t)"

text \<open>A non-empty text without two line feeds in a row that neither starts nor ends with one.\<close>

definition tidy :: "string \<Rightarrow> bool" where
  "tidy s \<longleftrightarrow> s \<noteq> [] \<and> noDoubleLf s \<and> hd s \<noteq> lf \<and> last s \<noteq> lf"

text \<open>
  The text as a sequence of tokens, each a separator (empty at the start of the text)
  and a cell text; and the rows built from the tokens, as the loop builds them.
\<close>

definition flatTokens :: "(string \<times> string) list \<Rightarrow> string" where
  "flatTokens ts = concat (map (\<lambda>(sep, t). sep @ t) ts)"

definition tokenRows :: "cell list list \<Rightarrow> (string \<times> string) list \<Rightarrow> cell list list" where
  "tokenRows results ts =
     foldl (\<lambda>res (sep, t). pushValue (if sep = [lf] then res @ [[]] else res) (Some (cellTextValue t)))
       results ts"

definition lineTokens :: "char \<Rightarrow> string \<Rightarrow> string list \<Rightarrow> (string \<times> string) list" where
  "lineTokens d sep line =
     (case line of [] \<Rightarrow> [] | t # ts \<Rightarrow> (sep, t) # map (\<lambda>t'. ([d], t')) ts)"

fun linesTokens :: "char \<Rightarrow> string list list \<Rightarrow> (string \<times> string) list" where
  "linesTokens d [] = []"
| "linesTokens d (l # ls) = lineTokens d [] l @ concat (map (lineTokens d [lf]) ls)"

text \<open>
  The text \<^verbatim>\<open>toCSV\<close> emits for record \<open>r\<close> and column \<open>c\<close>, and for the header of a
  column.
\<close>

definition emittedCell :: "column option list \<Rightarrow> obj list \<Rightarrow> options \<Rightarrow> nat \<Rightarrow> nat \<Rightarrow> string" where
  "emittedCell cols rows opts r c =
     elementText (encodeCellWith (cols ! c) (rows ! r) (r + headerOffset opts + 1) c)"

definition emittedHeader :: "column option \<Rightarrow> string" where
  "emittedHeader col = elementText (headerCell col)"

text \<open>Two lists of records are equal field for field, whatever the order of the keys.\<close>

definition sameRecords :: "obj list \<Rightarrow> obj list \<Rightarrow> bool" where
  "sameRecords rs rs' \<longleftrightarrow> list_all2 (\<lambda>a b. map_of a = map_of b) rs rs'"

section \<open>Verification\<close>

subsection \<open>Cell labels\<close>

lemma charAt_letters: "i < 26 \<Longrightarrow> charAt letters i = [letters ! i]"
  by (simp add: charAt_def letters_def)

lemma length_letters: "length letters = 26"
  by (simp add: letters_def)

lemma in_letters: "ch \<in> set letters \<Longrightarrow> \<exists>i<26. ch = letters ! i"
  using length_letters by (metis in_set_conv_nth)

lemma letterValue_table: "list_all (\<lambda>i. letterValue (letters ! i) = i + 1) [0..<26]"
  by code_simp

lemma letterValue_nth: "i < 26 \<Longrightarrow> letterValue (letters ! i) = i + 1"
  using letterValue_table by (simp add: list_all_iff)

lemma bijective26_snoc: "bijective26 (s @ [c]) = 26 * bijective26 s + letterValue c"
  by (simp add: bijective26_def)

lemma columnLabel_unfold:
  "columnLabel c =
     (if c div 26 > 0 then columnLabel (c div 26 - 1) @ [letters ! (c mod 26)]
      else [letters ! (c mod 26)])"
  by (subst columnLabel.simps) (simp add: charAt_letters)

lemma bijective26_columnLabel: "bijective26 (columnLabel c) = c + 1"
proof (induction c rule: columnLabel.induct)
  case (1 c)
  show ?case
  proof (cases "c div 26 > 0")
    case True
    with 1 have "bijective26 (columnLabel (c div 26 - 1)) = c div 26" by simp
    with True show ?thesis
      by (subst columnLabel_unfold) (simp add: bijective26_snoc letterValue_nth)
  next
    case False
    then show ?thesis
      by (subst columnLabel_unfold) (simp add: bijective26_def letterValue_nth)
  qed
qed

lemma columnLabel_letters: "set (columnLabel c) \<subseteq> set letters"
proof (induction c rule: columnLabel.induct)
  case (1 c)
  have "c mod 26 < length letters" by (simp add: letters_def)
  then have "letters ! (c mod 26) \<in> set letters" by (rule nth_mem)
  with 1 show ?case
    by (subst columnLabel_unfold) auto
qed

lemma letterValue_range: "ch \<in> set letters \<Longrightarrow> 1 \<le> letterValue ch \<and> letterValue ch \<le> 26"
proof -
  assume "ch \<in> set letters"
  then obtain i where "i < 26" "ch = letters ! i"
    using in_letters by blast
  then show ?thesis by (simp add: letterValue_nth)
qed

lemma letterValue_inj:
  assumes "ch \<in> set letters" and "ch' \<in> set letters" and "letterValue ch = letterValue ch'"
  shows "ch = ch'"
proof -
  from assms(1) obtain i where i: "i < 26" "ch = letters ! i"
    using in_letters by blast
  from assms(2) obtain j where j: "j < 26" "ch' = letters ! j"
    using in_letters by blast
  from assms(3) i j have "i = j" by (simp add: letterValue_nth)
  with i j show ?thesis by simp
qed

text \<open>Two strings of capital letters with the same bijective base-26 value are equal.\<close>

lemma bijective26_inj:
  "set s \<subseteq> set letters \<Longrightarrow> set t \<subseteq> set letters \<Longrightarrow> bijective26 s = bijective26 t \<Longrightarrow> s = t"
proof (induction s arbitrary: t rule: rev_induct)
  case Nil
  show ?case
  proof (cases t rule: rev_cases)
    case Nil
    then show ?thesis by simp
  next
    case (snoc ys y)
    with Nil.prems have "y \<in> set letters" by simp
    then have "1 \<le> letterValue y" using letterValue_range by blast
    with Nil.prems(3) snoc show ?thesis
      by (simp add: bijective26_snoc) (simp add: bijective26_def)
  qed
next
  case (snoc x xs)
  note p = snoc.prems and ih = snoc.IH
  from p have x: "x \<in> set letters" by simp
  show ?case
  proof (cases t rule: rev_cases)
    case Nil
    from x have "1 \<le> letterValue x" using letterValue_range by blast
    with p(3) Nil show ?thesis
      by (simp add: bijective26_snoc) (simp add: bijective26_def)
  next
    case (snoc ys y)
    with p have y: "y \<in> set letters" and ys: "set ys \<subseteq> set letters" by simp_all
    from p(3) snoc
    have e: "26 * bijective26 xs + letterValue x = 26 * bijective26 ys + letterValue y"
      by (simp add: bijective26_snoc)
    have rx: "1 \<le> letterValue x \<and> letterValue x \<le> 26" using x letterValue_range by blast
    have ry: "1 \<le> letterValue y \<and> letterValue y \<le> 26" using y letterValue_range by blast
    from e rx ry have "bijective26 xs = bijective26 ys \<and> letterValue x = letterValue y" by arith
    with ih[of ys] p ys x y letterValue_inj snoc show ?thesis by auto
  qed
qed

lemma decimalValue_snoc: "decimalValue (s @ [c]) = 10 * decimalValue s + digitValue c"
  by (simp add: decimalValue_def)

lemma digit_table:
  "list_all (\<lambda>i. charAt ''0123456789'' i = [''0123456789'' ! i] \<and>
                 digitValue (''0123456789'' ! i) = i) [0..<10]"
  by code_simp

lemma digit_nth:
  "i < 10 \<Longrightarrow> charAt ''0123456789'' i = [''0123456789'' ! i] \<and> digitValue (''0123456789'' ! i) = i"
  using digit_table by (simp add: list_all_iff)

lemma decimalValue_natToString: "decimalValue (natToString n) = n"
proof (induction n rule: natToString.induct)
  case (1 n)
  show ?case
  proof (cases "n < 10")
    case True
    then show ?thesis
      by (subst natToString.simps) (simp add: digit_nth decimalValue_def)
  next
    case False
    have "n mod 10 < 10" by simp
    with False 1 show ?thesis
      by (subst natToString.simps) (simp add: digit_nth decimalValue_snoc)
  qed
qed

lemma natToString_digits: "set (natToString n) \<subseteq> set ''0123456789''"
proof (induction n rule: natToString.induct)
  case (1 n)
  have m: "n mod 10 < 10" by simp
  have d: "i < 10 \<Longrightarrow> set (charAt ''0123456789'' i) \<subseteq> set ''0123456789''" for i
    unfolding charAt_def using nth_mem[of i "''0123456789''"] by simp
  show ?case
  proof (cases "n < 10")
    case True
    then show ?thesis by (subst natToString.simps) (simp add: d del: set_simps)
  next
    case False
    with 1 d[OF m] show ?thesis by (subst natToString.simps) (simp del: set_simps)
  qed
qed

text \<open>
  Claim C8, as amended. \<^verbatim>\<open>cellLabel(0, 0)\<close> is not \<^verbatim>\<open>"A1"\<close>: the row number is appended
  as it is, so the label of row 0 and column 0 is \<^verbatim>\<open>"A0"\<close>.
\<close>

theorem cellLabel_origin: "cellLabel 0 0 = ''A0''"
  by (simp add: cellLabel_def columnLabel.simps natToString.simps charAt_def letters_def)

theorem cellLabel_origin_counterexample: "cellLabel 0 0 \<noteq> ''A1''"
  by (simp add: cellLabel_def columnLabel.simps natToString.simps charAt_def letters_def)

text \<open>
  Claim C9. For all row and column numbers that are safe integers (up to
  \<open>2\<^sup>5\<^sup>3 - 1\<close>, where the code's arithmetic on doubles is exact and the text of a number
  is its decimal numeral), \<^verbatim>\<open>cellLabel(row, column)\<close> is the column
  label followed by the decimal numeral of the row as supplied (its digits read back give
  \<open>row\<close> itself, not \<open>row + 1\<close>). The column label consists of capital letters, its value
  as a bijective base-26 numeral is \<open>column + 1\<close>, and it is the only string of capital
  letters with that value: the labels run A, B, ..., Z, AA, AB, ... The label of a column
  is the label of \<open>column div 26 - 1\<close>, when the quotient is positive, followed by the
  letter for \<open>column mod 26\<close>. In particular \<^verbatim>\<open>cellLabel(9, 4)\<close> is \<^verbatim>\<open>"E9"\<close>.
\<close>

theorem cellLabel_bijective_base26:
  assumes "row \<le> maxSafeInteger" and "col \<le> maxSafeInteger"
  shows
  "cellLabel row col = columnLabel col @ natToString row \<and>
   set (columnLabel col) \<subseteq> set letters \<and>
   bijective26 (columnLabel col) = col + 1 \<and>
   (\<forall>s. set s \<subseteq> set letters \<and> bijective26 s = col + 1 \<longrightarrow> s = columnLabel col) \<and>
   columnLabel col =
     (if col div 26 > 0 then columnLabel (col div 26 - 1) @ [letters ! (col mod 26)]
      else [letters ! (col mod 26)]) \<and>
   set (natToString row) \<subseteq> set ''0123456789'' \<and>
   decimalValue (natToString row) = row \<and>
   cellLabel 9 4 = ''E9''"
proof -
  have uniq: "\<forall>s. set s \<subseteq> set letters \<and> bijective26 s = col + 1 \<longrightarrow> s = columnLabel col"
    using bijective26_inj[OF _ columnLabel_letters[of col]] bijective26_columnLabel[of col]
    by auto
  have e9: "cellLabel 9 4 = ''E9''"
    by (simp add: cellLabel_def columnLabel.simps natToString.simps charAt_def letters_def)
  show ?thesis
    using uniq e9 columnLabel_letters[of col] bijective26_columnLabel[of col]
      columnLabel_unfold[of col] natToString_digits[of row] decimalValue_natToString[of row]
    unfolding cellLabel_def by blast
qed

theorem cellLabel_bijective_base26_witness:
  "3 \<le> maxSafeInteger \<and> 27 \<le> maxSafeInteger \<and>
   set ''AB'' \<subseteq> set letters \<and> bijective26 ''AB'' = 27 + 1 \<and> ''AB'' = columnLabel 27 \<and>
   cellLabel 3 27 = ''AB3''"
proof -
  have r: "3 \<le> maxSafeInteger" by (simp add: maxSafeInteger_def)
  have k: "27 \<le> maxSafeInteger" by (simp add: maxSafeInteger_def)
  have a: "set ''AB'' \<subseteq> set letters" by (simp add: letters_def)
  have b: "bijective26 ''AB'' = 27 + 1" by (simp add: bijective26_def letterValue_def)
  have c: "natToString 3 = ''3''" by (simp add: natToString.simps charAt_def)
  note t = cellLabel_bijective_base26[OF r k]
  from t a b have d: "''AB'' = columnLabel 27" by blast
  from t have "cellLabel 3 27 = columnLabel 27 @ natToString 3" by blast
  with c d have e: "cellLabel 3 27 = ''AB3''" by simp
  from r k a b d e show ?thesis by blast
qed

subsection \<open>The tokenizer loop\<close>

lemmas tokenizer_defs = csvToArray_def regexExec.simps matchAt_def matchSeparator_def
  matchQuoted_def isPlainChar_def loopBody_def pushValue_def cellOfMatch_def

lemmas fromCSV_defs = fromCSV_def preprocess_def stripLineBreak_def delimiterOf_def
  startIndexOf_def normalizeColumns_fromCSV_def detectColumnsFromCSV_def mapIndexed_def
  cellInput_def getRow_def reduceIndexed_def fromCSV_processColumn_def rawCell_def
  parsedValue_def isEmptyValue_def requiredMessage_def setProp_def keyColumn_def
  natToString.simps charAt_def

text \<open>
  When the pattern matches the empty text at index 0, \<^verbatim>\<open>lastIndex\<close> stays 0 and the next
  \<^verbatim>\<open>exec\<close> finds the same match: the loop never ends.
\<close>

lemma csvLoop_stuck_aux:
  assumes "csvLoop delim str i results = Some y"
  shows "\<not> (i = 0 \<and> (\<exists>m. matchAt delim str 0 = Some m \<and> matchEnd m = 0))"
  using assms
proof (induction rule: csvLoop.raw_induct[rotated 1, consumes 1, case_names step])
  case (step loop delim str i results y)
  show ?case
  proof
    assume a: "i = 0 \<and> (\<exists>m. matchAt delim str 0 = Some m \<and> matchEnd m = 0)"
    then obtain m where m: "matchAt delim str 0 = Some m" "matchEnd m = 0" by blast
    then have "regexExec delim str 0 = Some m" by (simp add: regexExec.simps)
    with step.hyps a m have "loop delim str 0 (loopBody delim m results) = Some y" by simp
    from step.IH[OF this] m show False by blast
  qed
qed

lemma csvLoop_stuck:
  "matchAt delim str 0 = Some m \<Longrightarrow> matchEnd m = 0 \<Longrightarrow> csvLoop delim str 0 results = None"
  using csvLoop_stuck_aux[of delim str 0 results] by (cases "csvLoop delim str 0 results") auto

lemma csvToArray_empty: "csvToArray [] delim = None"
  unfolding csvToArray_def
  by (rule csvLoop_stuck[where m = "\<lparr>matchEnd = 0, group1 = [], group2 = None, group3 = Some []\<rparr>"])
     (simp_all add: matchAt_def matchSeparator_def matchQuoted_def)

text \<open>
  From an index other than 0 every match is longer than the empty text, so the loop ends;
  hence \<^verbatim>\<open>csvToArray\<close> fails to return exactly for the empty text and for a text that
  starts with a double quote and has no other.
\<close>

lemma matchSeparator_positive:
  "i > 0 \<Longrightarrow> matchSeparator d str i = Some k \<Longrightarrow> k > 0"
  by (auto simp: matchSeparator_def Let_def split: if_splits)

lemma matchAt_advances:
  assumes "i > 0" and "matchAt d str i = Some m"
  shows "matchEnd m > i"
proof -
  from assms(2) obtain k where k: "matchSeparator d str i = Some k"
    by (auto simp: matchAt_def split: option.splits)
  with assms(1) have "k > 0" by (rule matchSeparator_positive)
  with assms(2) k show ?thesis
    by (auto simp: matchAt_def Let_def split: option.splits)
qed

lemma regexExec_found:
  "regexExec d str i = Some m \<Longrightarrow> \<exists>j\<ge>i. j \<le> length str \<and> matchAt d str j = Some m"
proof (induction d str i rule: regexExec.induct)
  case (1 d str i)
  note unfold = regexExec.simps[of d str i]
  from "1.prems" unfold have le: "\<not> length str < i" by (auto split: if_splits)
  show ?case
  proof (cases "matchAt d str i")
    case (Some m')
    with "1.prems" unfold le have "m' = m" by simp
    with Some le show ?thesis by auto
  next
    case None
    with "1.prems" unfold le have r: "regexExec d str (i + 1) = Some m" by simp
    from "1.IH"[OF le None r] obtain j where
      j: "i + 1 \<le> j" "j \<le> length str" "matchAt d str j = Some m" by blast
    from j(1) have "i \<le> j" by simp
    with j(2,3) show ?thesis by blast
  qed
qed

lemma regexExec_advances:
  assumes "i > 0" and "regexExec d str i = Some m"
  shows "matchEnd m > i \<and> i \<le> length str"
proof -
  from regexExec_found[OF assms(2)] obtain j where j: "j \<ge> i" "j \<le> length str" "matchAt d str j = Some m"
    by blast
  with assms(1) have "j > 0" by simp
  from matchAt_advances[OF this j(3)] j show ?thesis by simp
qed

lemma csvLoop_returns:
  "i > 0 \<Longrightarrow> \<exists>rows. csvLoop d str i results = Some rows"
proof (induction "length str + 1 - i" arbitrary: i results rule: less_induct)
  case less
  show ?case
  proof (cases "regexExec d str i")
    case None
    then show ?thesis by (subst csvLoop.simps) simp
  next
    case (Some m)
    from regexExec_advances[OF less.prems Some] have adv: "matchEnd m > i" "i \<le> length str" by simp_all
    then have "length str + 1 - matchEnd m < length str + 1 - i" by simp
    moreover from adv have "matchEnd m > 0" by simp
    ultimately have "\<exists>rows. csvLoop d str (matchEnd m) (loopBody d m results) = Some rows"
      by (rule less.hyps)
    moreover have "csvLoop d str i results = csvLoop d str (matchEnd m) (loopBody d m results)"
      by (subst csvLoop.simps) (simp add: Some)
    ultimately show ?thesis by simp
  qed
qed

lemma scanQuoted_None: "scanQuoted cs = None \<longleftrightarrow> dq \<notin> set cs"
  by (induction cs rule: scanQuoted.induct) (auto split: option.splits)

lemma matchAt_start:
  "\<exists>m. matchAt d str 0 = Some m \<and>
        (matchEnd m = 0 \<longleftrightarrow> str = [] \<or> (d \<noteq> dq \<and> hd str = dq \<and> dq \<notin> set (tl str)))"
proof (cases str)
  case Nil
  then show ?thesis by (simp add: matchAt_def matchSeparator_def matchQuoted_def)
next
  case (Cons c cs)
  have "matchSeparator d str 0 \<noteq> None"
    by (simp add: matchSeparator_def Let_def)
  then obtain k where k: "matchSeparator d str 0 = Some k" by blast
  show ?thesis
  proof (cases "k = 0")
    case False
    with k have pos: "\<exists>m. matchAt d str 0 = Some m \<and> matchEnd m > 0"
      by (auto simp: matchAt_def Let_def split: option.splits)
    from False k Cons have "c = d \<or> c = lf \<or> c = cr"
      by (auto simp: matchSeparator_def Let_def split: if_splits)
    moreover have "d = dq \<or> c \<noteq> dq \<or> c \<noteq> d" by auto
    ultimately have "\<not> (str = [] \<or> (d \<noteq> dq \<and> hd str = dq \<and> dq \<notin> set (tl str)))"
      using Cons by auto
    with pos show ?thesis by auto
  next
    case True
    with k Cons have c: "c \<noteq> d" "c \<noteq> lf" "c \<noteq> cr"
      by (auto simp: matchSeparator_def Let_def split: if_splits)
    show ?thesis
    proof (cases "c = dq")
      case True
      with c have d: "d \<noteq> dq" by simp
      show ?thesis
      proof (cases "scanQuoted cs")
        case None
        with k \<open>k = 0\<close> Cons True show ?thesis
          using scanQuoted_None[of cs] d
          by (simp add: matchAt_def matchQuoted_def isPlainChar_def)
      next
        case (Some n)
        with k \<open>k = 0\<close> Cons True show ?thesis
          using scanQuoted_None[of cs]
          by (simp add: matchAt_def matchQuoted_def)
      qed
    next
      case False
      with k \<open>k = 0\<close> Cons c show ?thesis
        by (simp add: matchAt_def matchQuoted_def isPlainChar_def)
    qed
  qed
qed

lemma regexExec_start: "matchAt d str 0 = Some m \<Longrightarrow> regexExec d str 0 = Some m"
  by (subst regexExec.simps) simp

lemma csvLoop_first:
  "matchAt d str 0 = Some m \<Longrightarrow>
   csvLoop d str 0 res = csvLoop d str (matchEnd m) (loopBody d m res)"
  by (subst csvLoop.simps) (simp add: regexExec_start)

lemma csvToArray_returns_iff:
  "csvToArray str d = None \<longleftrightarrow> str = [] \<or> (d \<noteq> dq \<and> hd str = dq \<and> dq \<notin> set (tl str))"
proof -
  let ?stuck = "str = [] \<or> (d \<noteq> dq \<and> hd str = dq \<and> dq \<notin> set (tl str))"
  from matchAt_start[of d str] obtain m where
    me: "matchAt d str 0 = Some m \<and> (matchEnd m = 0 \<longleftrightarrow> ?stuck)" ..
  from me have m: "matchAt d str 0 = Some m" by (rule conjunct1)
  from me have e: "matchEnd m = 0 \<longleftrightarrow> ?stuck" by (rule conjunct2)
  show ?thesis
  proof (cases "matchEnd m = 0")
    case True
    have a: "csvToArray str d = None"
      unfolding csvToArray_def using m True by (rule csvLoop_stuck)
    from e True have b: ?stuck by (rule iffD1)
    show ?thesis
    proof
      assume "csvToArray str d = None"
      show ?stuck by (rule b)
    next
      assume ?stuck
      show "csvToArray str d = None" by (rule a)
    qed
  next
    case False
    then have pos: "matchEnd m > 0" by simp
    from csvLoop_returns[OF pos, of d str "loopBody d m [[]]"] obtain rows where
      rows: "csvLoop d str (matchEnd m) (loopBody d m [[]]) = Some rows" ..
    have "csvToArray str d = Some rows"
      unfolding csvToArray_def csvLoop_first[OF m] by (rule rows)
    then have a: "csvToArray str d \<noteq> None" by simp
    have b: "\<not> ?stuck"
    proof
      assume ?stuck
      with e have "matchEnd m = 0" by (rule iffD2)
      with False show False by (rule notE)
    qed
    show ?thesis
    proof
      assume "csvToArray str d = None"
      with a show ?stuck by (rule notE)
    next
      assume ?stuck
      with b show "csvToArray str d = None" by (rule notE)
    qed
  qed
qed

text \<open>
  Claim C2. With the comma as delimiter, \<^verbatim>\<open>csvToArray\<close> fails to return exactly when the
  text is empty or starts with a double quote and has no other. In particular it does not
  return on the empty text, nor on the text of a quote and the letter a, and \<^verbatim>\<open>fromCSV\<close>
  does not return on the empty text with a column list.
\<close>

theorem csvToArray_empty_text_never_returns:
  "(csvToArray str (CHR '','') = None \<longleftrightarrow>
      str = [] \<or> (hd str = dq \<and> dq \<notin> set (tl str))) \<and>
   csvToArray [] delim = None \<and>
   csvToArray [dq, CHR ''a''] (CHR '','') = None \<and>
   fromCSV [] (Some [ColumnKey ''a''])
     \<lparr>includeHeader = False, includeEmptyValues = False, delimiter = None\<rparr> = None"
proof -
  have q: "csvToArray [dq, CHR ''a''] (CHR '','') = None"
    unfolding csvToArray_def
    by (rule csvLoop_stuck[where m = "\<lparr>matchEnd = 0, group1 = [], group2 = None, group3 = Some []\<rparr>"])
       (simp_all add: matchAt_def matchSeparator_def matchQuoted_def isPlainChar_def)
  have f: "fromCSV [] (Some [ColumnKey ''a''])
     \<lparr>includeHeader = False, includeEmptyValues = False, delimiter = None\<rparr> = None"
    by (simp add: fromCSV_def preprocess_def stripLineBreak_def normalizeColumns_fromCSV_def
        csvToArray_empty)
  have c: "csvToArray str (CHR '','') = None \<longleftrightarrow>
      str = [] \<or> (hd str = dq \<and> dq \<notin> set (tl str))"
    using csvToArray_returns_iff[of str "CHR '',''"] by simp
  from c q f csvToArray_empty[of delim] show ?thesis
    by (intro conjI)
qed

text \<open>
  Claim C6, evaluated at the text \<^verbatim>\<open>,a\<close>: the first match takes the leading comma as its
  separator, so no empty field is emitted for the start of the text, and the first row
  is the single cell \<^verbatim>\<open>a\<close>. Through \<^verbatim>\<open>fromCSV\<close> with the columns \<^verbatim>\<open>x\<close> and \<^verbatim>\<open>y\<close> the
  value lands in \<^verbatim>\<open>x\<close>.
\<close>

theorem csvToArray_leading_delimiter:
  "csvToArray '',a'' (CHR '','') = Some [[Some ''a'']] \<and>
   fromCSV '',a'' (Some [ColumnKey ''x'', ColumnKey ''y''])
     \<lparr>includeHeader = False, includeEmptyValues = False, delimiter = None\<rparr>
     = Some (Inr [[(''x'', JStr ''a'')]])"
  by (simp add: fromCSV_defs csvLoop.simps tokenizer_defs)

subsection \<open>Pre-processing\<close>

text \<open>
  Claim C4, evaluated at the text of the three characters line feed, \<^verbatim>\<open>a\<close>, line feed:
  only the leading line feed is removed, the tokenizer yields a second row with one empty
  cell, and the result ends with an empty record.
\<close>

theorem fromCSV_keeps_trailing_line_break:
  "preprocess [lf, CHR ''a'', lf] = [CHR ''a'', lf] \<and>
   fromCSV [lf, CHR ''a'', lf] None
     \<lparr>includeHeader = False, includeEmptyValues = False, delimiter = None\<rparr>
     = Some (Inr [[(''col1'', JStr ''a'')], []])"
  by (simp add: fromCSV_defs csvLoop.simps tokenizer_defs)

lemma collapse_replicate: "collapseLineBreaks (replicate n lf) = (if n = 0 then [] else [lf])"
proof (induction n rule: less_induct)
  case (less n)
  show ?case
  proof (cases n)
    case 0 then show ?thesis by simp
  next
    case (Suc m)
    show ?thesis
    proof (cases m)
      case 0 with Suc show ?thesis by simp
    next
      case (Suc k)
      with \<open>n = Suc m\<close> less[of m] show ?thesis by simp
    qed
  qed
qed

lemma only_line_breaks: "set str \<subseteq> {lf} \<Longrightarrow> str = replicate (length str) lf"
  by (induction str) auto

lemma preprocess_line_breaks: "set str \<subseteq> {lf} \<Longrightarrow> preprocess str = []"
proof -
  assume "set str \<subseteq> {lf}"
  then have "str = replicate (length str) lf" by (rule only_line_breaks)
  then have "collapseLineBreaks str = (if length str = 0 then [] else [lf])"
    using collapse_replicate[of "length str"] by simp
  then show ?thesis by (simp add: preprocess_def stripLineBreak_def)
qed

lemma fromCSV_absent_columns:
  "preprocess str = [] \<Longrightarrow> fromCSV str None opts = Some (Inl TypeError)"
  by (simp add: fromCSV_def normalizeColumns_fromCSV_def)

text \<open>
  Claim C10. When the column list is absent and the text is empty or consists of line
  feeds only, the pre-processed text is empty, no columns are derived from the text, and
  \<^verbatim>\<open>fromCSV\<close> throws a type error from \<^verbatim>\<open>columns.map\<close>; it does not return an empty
  list of records.
\<close>

theorem fromCSV_absent_columns_empty_text:
  assumes "set str \<subseteq> {lf}"
  shows "preprocess str = [] \<and>
         normalizeColumns_fromCSV (preprocess str) None opts = Some (Inl TypeError) \<and>
         fromCSV str None opts = Some (Inl TypeError)"
  using preprocess_line_breaks[OF assms]
  by (simp add: fromCSV_def normalizeColumns_fromCSV_def)

theorem fromCSV_absent_columns_empty_text_witness:
  "fromCSV [lf, lf, lf] None \<lparr>includeHeader = False, includeEmptyValues = False, delimiter = None\<rparr>
     = Some (Inl TypeError) \<and>
   fromCSV [] None \<lparr>includeHeader = True, includeEmptyValues = False, delimiter = None\<rparr>
     = Some (Inl TypeError)"
proof -
  have a: "set [lf, lf, lf] \<subseteq> {lf}" by simp
  have b: "set [] \<subseteq> {lf}" by simp
  from fromCSV_absent_columns_empty_text[OF a] fromCSV_absent_columns_empty_text[OF b]
  show ?thesis by blast
qed

subsection \<open>Escaping\<close>

lemma sep_not_digit: "isDateSeparator c \<Longrightarrow> \<not> isDigit c"
  by (auto simp: isDateSeparator_def isDigit_def)

lemma looksLikeDate_iff: "looksLikeDate s \<longleftrightarrow> matchesDatePattern s"
proof
  assume l: "looksLikeDate s"
  define d1 where "d1 = takeWhile isDigit s"
  define r1 where "r1 = dropWhile isDigit s"
  define d2 where "d2 = takeWhile isDigit (drop 1 r1)"
  define r2 where "r2 = dropWhile isDigit (drop 1 r1)"
  define d3 where "d3 = drop 1 r2"
  from l have p: "d1 \<noteq> []" "r1 \<noteq> []" "isDateSeparator (hd r1)" "d2 \<noteq> []" "r2 \<noteq> []"
    "isDateSeparator (hd r2)" "d3 \<noteq> []" "list_all isDigit d3"
    unfolding looksLikeDate_def Let_def d1_def r1_def d2_def r2_def d3_def by simp_all
  have s: "s = d1 @ r1" by (simp add: d1_def r1_def)
  from p(2) have r1: "r1 = [hd r1] @ drop 1 r1" by (cases r1) simp_all
  have t: "drop 1 r1 = d2 @ r2" by (simp add: d2_def r2_def)
  from p(5) have r2: "r2 = [hd r2] @ d3" unfolding d3_def by (cases r2) simp_all
  have "s = d1 @ [hd r1] @ d2 @ [hd r2] @ d3"
    using s r1 t r2 by metis
  moreover have "list_all isDigit d1" by (simp add: d1_def list_all_iff) (meson set_takeWhileD)
  moreover have "list_all isDigit d2" by (simp add: d2_def list_all_iff) (meson set_takeWhileD)
  ultimately show "matchesDatePattern s"
    unfolding matchesDatePattern_def using p by blast
next
  assume "matchesDatePattern s"
  then obtain d1 s1 d2 s2 d3 where
    s: "s = d1 @ [s1] @ d2 @ [s2] @ d3" and
    p: "d1 \<noteq> []" "list_all isDigit d1" "isDateSeparator s1" "d2 \<noteq> []" "list_all isDigit d2"
       "isDateSeparator s2" "d3 \<noteq> []" "list_all isDigit d3"
    unfolding matchesDatePattern_def by blast
  have n1: "\<not> isDigit s1" and n2: "\<not> isDigit s2" using p sep_not_digit by blast+
  have a: "takeWhile isDigit s = d1" using s p(2) n1 by (simp add: list_all_iff takeWhile_append2)
  have b: "dropWhile isDigit s = [s1] @ d2 @ [s2] @ d3"
    using s p(2) n1 by (simp add: list_all_iff dropWhile_append2)
  have c: "takeWhile isDigit (d2 @ [s2] @ d3) = d2"
    using p(5) n2 by (simp add: list_all_iff takeWhile_append2)
  have d: "dropWhile isDigit (d2 @ [s2] @ d3) = [s2] @ d3"
    using p(5) n2 by (simp add: list_all_iff dropWhile_append2)
  show "looksLikeDate s"
    unfolding looksLikeDate_def Let_def a b using c d p by simp
qed

lemma escapeCSV_longer: "length (escapeCSV s) \<ge> length s + 2"
proof -
  have "length (concat (map (\<lambda>c. if c = dq then [dq, dq] else [c]) s)) \<ge> length s"
    by (induction s) auto
  then show ?thesis by (simp add: escapeCSV_def)
qed

lemma startsWithEquals_iff: "startsWithEquals s \<longleftrightarrow> (\<exists>t. s = CHR ''='' # t)"
  by (cases s) (auto simp: startsWithEquals_def)

lemma toCSV_single:
  "k \<noteq> [] \<Longrightarrow> \<not> includeHeader opts \<Longrightarrow> toCSV [ob] (Some [ColumnKey k]) opts = elementText (finishCell (getProp ob k))"
  by (simp add: toCSV_def toCSV_lines_def normalizeColumns_toCSV_def mapIndexed_def getLine_def
      toCSV_processColumn_def keyColumn_def propertyKey_def arrayJoin_def enumerate_eq_zip)

text \<open>
  Claim C5. The text emitted for a cell whose (converted) value is the string \<open>s\<close> is the
  escaped string, in double quotes with every double quote doubled, if and only if \<open>s\<close> is
  not empty, does not start with \<^verbatim>\<open>=\<close> and does not match the date-like pattern;
  otherwise it is \<open>s\<close> itself. A number and a boolean are emitted as their text. For a
  single record and a single text column without header line, this text is the whole
  result of \<^verbatim>\<open>toCSV\<close>.
\<close>

theorem toCSV_escaping_rule:
  "elementText (finishCell (JStr s)) =
     (if s \<noteq> [] \<and> \<not> (\<exists>t. s = CHR ''='' # t) \<and> \<not> matchesDatePattern s then escapeCSV s else s) \<and>
   escapeCSV s = [dq] @ concat (map (\<lambda>c. if c = dq then [dq, dq] else [c]) s) @ [dq] \<and>
   escapeCSV s \<noteq> s \<and>
   elementText (finishCell (JNum n)) = intToString n \<and>
   elementText (finishCell (JBool b)) = (if b then ''true'' else ''false'') \<and>
   (k \<noteq> [] \<and> \<not> includeHeader opts \<longrightarrow>
      toCSV [ob] (Some [ColumnKey k]) opts = elementText (finishCell (getProp ob k)))"
proof -
  have a: "elementText (finishCell (JStr s)) =
     (if s \<noteq> [] \<and> \<not> (\<exists>t. s = CHR ''='' # t) \<and> \<not> matchesDatePattern s then escapeCSV s else s)"
    by (simp add: elementText_def finishCell_def Let_def looksLikeDate_iff startsWithEquals_iff)
  have b: "escapeCSV s \<noteq> s" using escapeCSV_longer[of s] by auto
  have c: "elementText (finishCell (JNum n)) = intToString n"
    by (simp add: elementText_def finishCell_def Let_def)
  have d: "elementText (finishCell (JBool b)) = (if b then ''true'' else ''false'')"
    by (simp add: elementText_def finishCell_def Let_def)
  from a b c d toCSV_single[of k opts ob] show ?thesis
    by (simp add: escapeCSV_def)
qed

theorem toCSV_escaping_rule_witness:
  "toCSV [[(''name'', JStr [CHR ''a'', dq, CHR ''b''])]] (Some [ColumnKey ''name''])
     \<lparr>includeHeader = False, includeEmptyValues = False, delimiter = None\<rparr>
   = [dq, CHR ''a'', dq, dq, CHR ''b'', dq]"
proof -
  let ?s = "[CHR ''a'', dq, CHR ''b'']"
  let ?ob = "[(''name'', JStr ?s)]"
  let ?opts = "\<lparr>includeHeader = False, includeEmptyValues = False, delimiter = None\<rparr>"
  note t = toCSV_escaping_rule[of ?s 0 True "''name''" ?opts ?ob]
  have nd: "\<not> matchesDatePattern ?s"
    by (simp add: looksLikeDate_iff[symmetric] looksLikeDate_def isDigit_def)
  from t have 1: "toCSV [?ob] (Some [ColumnKey ''name'']) ?opts
                  = elementText (finishCell (getProp ?ob ''name''))" by simp
  have 2: "getProp ?ob ''name'' = JStr ?s" by (simp add: getProp_def)
  from t nd have 3: "elementText (finishCell (JStr ?s)) = escapeCSV ?s" by simp
  from 1 2 3 show ?thesis by (simp add: escapeCSV_def)
qed

subsection \<open>Indices passed to converters and parsers\<close>

lemma mapIndexed_snoc: "mapIndexed f (xs @ [x]) = mapIndexed f xs @ [f x (length xs)]"
  by (simp add: mapIndexed_def enumerate_append_eq)

lemma mapIndexed_nth: "mapIndexed f xs = map (\<lambda>i. f (xs ! i) i) [0..<length xs]"
proof (induction xs rule: rev_induct)
  case Nil
  show ?case by (simp add: mapIndexed_def)
next
  case (snoc x xs)
  have "map (\<lambda>i. f ((xs @ [x]) ! i) i) [0..<length xs] = map (\<lambda>i. f (xs ! i) i) [0..<length xs]"
    by (rule map_cong) (simp_all add: nth_append)
  with snoc show ?case
    by (simp add: mapIndexed_snoc)
qed

lemma reduceIndexed_snoc:
  "reduceIndexed f init (xs @ [x]) =
     (case reduceIndexed f init xs of Inl e \<Rightarrow> Inl e | Inr r \<Rightarrow> f r x (length xs))"
  by (simp add: reduceIndexed_def enumerate_append_eq)

lemma reduceIndexed_nth:
  "reduceIndexed f init xs =
     foldl (\<lambda>acc i. case acc of Inl e \<Rightarrow> Inl e | Inr r \<Rightarrow> f r (xs ! i) i) (Inr init) [0..<length xs]"
proof (induction xs rule: rev_induct)
  case Nil
  show ?case by (simp add: reduceIndexed_def)
next
  case (snoc x xs)
  have "foldl (\<lambda>acc i. case acc of Inl e \<Rightarrow> Inl e | Inr r \<Rightarrow> f r ((xs @ [x]) ! i) i) (Inr init) [0..<length xs]
      = foldl (\<lambda>acc i. case acc of Inl e \<Rightarrow> Inl e | Inr r \<Rightarrow> f r (xs ! i) i) (Inr init) [0..<length xs]"
    by (rule foldl_cong) (simp_all add: nth_append split: sum.splits)
  with snoc show ?case
    by (simp add: reduceIndexed_snoc split: sum.splits)
qed

lemma startIndex_headerOffset: "startIndexOf opts = headerOffset opts"
  by (simp add: startIndexOf_def headerOffset_def)

lemma processColumn_encodeCellWith:
  "toCSV_processColumn (startIndexOf opts) ob r col c = encodeCellWith col ob (r + headerOffset opts + 1) c"
  by (simp add: toCSV_processColumn_def encodeCellWith_def startIndex_headerOffset Let_def
      split: option.splits)

lemma parsedValue_decodedValueWith:
  "parsedValue c k (startIndexOf opts) r ci raw = decodedValueWith c k raw (r + headerOffset opts + 1) ci"
  by (simp add: parsedValue_def decodedValueWith_def startIndex_headerOffset split: option.splits)

lemma processColumn_decodeStepWith:
  "fromCSV_processColumn ie (startIndexOf opts) line r result col c =
     decodeStepWith ie line result col (r + headerOffset opts + 1) c"
  by (auto simp: fromCSV_processColumn_def decodeStepWith_def parsedValue_decodedValueWith
      Let_def split: option.splits)

lemma getRow_decodeRowWith:
  "getRow cols ie (startIndexOf opts) line r = decodeRowWith cols ie line (r + headerOffset opts + 1)"
  unfolding getRow_def decodeRowWith_def reduceIndexed_nth
  by (rule foldl_cong) (simp_all add: processColumn_decodeStepWith split: sum.splits)

lemma toCSV_lines_details:
  "toCSV_lines rows columns opts =
     (if includeHeader opts then [headerLine (normalizeColumns_toCSV rows columns opts) (delimiterOf opts)] else []) @
     map (\<lambda>r. arrayJoin [delimiterOf opts]
                 (map (\<lambda>c. encodeCellWith (normalizeColumns_toCSV rows columns opts ! c) (rows ! r)
                              (r + headerOffset opts + 1) c)
                    [0..<length (normalizeColumns_toCSV rows columns opts)]))
       [0..<length rows]"
  by (simp add: toCSV_lines_def getLine_def mapIndexed_nth processColumn_encodeCellWith Let_def)

lemma toCSV_line_number:
  assumes "r < length rows"
  shows "toCSV_lines rows columns opts ! (r + headerOffset opts) =
     arrayJoin [delimiterOf opts]
       (map (\<lambda>c. encodeCellWith (normalizeColumns_toCSV rows columns opts ! c) (rows ! r)
                    (r + headerOffset opts + 1) c)
          [0..<length (normalizeColumns_toCSV rows columns opts)])"
  using assms by (simp add: toCSV_lines_details headerOffset_def nth_append)


text \<open>
  Claim C7. \<^verbatim>\<open>toCSV\<close> is the text in which the cell of record \<open>r\<close> and column \<open>c\<close> is
  computed with the converter's details carrying row \<open>r + headerOffset + 1\<close> and column
  \<open>c\<close>, and, when it returns, \<^verbatim>\<open>fromCSV\<close> is the list in which the record of data row
  \<open>r\<close> is computed with each parser's details carrying row \<open>r + headerOffset + 1\<close> and
  the column's index; \<open>headerOffset\<close> is 1 with \<^verbatim>\<open>includeHeader\<close> and 0 without. The line
  of record \<open>r\<close> is line number \<open>r + headerOffset + 1\<close> of the lines that \<^verbatim>\<open>toCSV\<close> joins.
\<close>

theorem details_row_and_column:
  "toCSV rows columns opts =
     joinStrings [lf]
       ((if includeHeader opts
         then [headerLine (normalizeColumns_toCSV rows columns opts) (delimiterOf opts)] else []) @
        map (\<lambda>r. arrayJoin [delimiterOf opts]
                    (map (\<lambda>c. encodeCellWith (normalizeColumns_toCSV rows columns opts ! c) (rows ! r)
                                 (r + headerOffset opts + 1) c)
                       [0..<length (normalizeColumns_toCSV rows columns opts)]))
          [0..<length rows]) \<and>
   (normalizeColumns_fromCSV (preprocess str) columns opts = Some (Inr cols) \<and>
    csvToArray (preprocess str) (delimiterOf opts) = Some results \<longrightarrow>
    fromCSV str columns opts =
      Some (collectResults
              (map (\<lambda>r. decodeRowWith cols (includeEmptyValues opts)
                           (drop (headerOffset opts) results ! r) (r + headerOffset opts + 1))
                 [0..<length results - headerOffset opts]))) \<and>
   (r < length rows \<longrightarrow>
    toCSV_lines rows columns opts ! (r + headerOffset opts) =
      arrayJoin [delimiterOf opts]
        (map (\<lambda>c. encodeCellWith (normalizeColumns_toCSV rows columns opts ! c) (rows ! r)
                     (r + headerOffset opts + 1) c)
           [0..<length (normalizeColumns_toCSV rows columns opts)]))"
proof -
  have enc: "toCSV rows columns opts =
     joinStrings [lf]
       ((if includeHeader opts
         then [headerLine (normalizeColumns_toCSV rows columns opts) (delimiterOf opts)] else []) @
        map (\<lambda>r. arrayJoin [delimiterOf opts]
                    (map (\<lambda>c. encodeCellWith (normalizeColumns_toCSV rows columns opts ! c) (rows ! r)
                                 (r + headerOffset opts + 1) c)
                       [0..<length (normalizeColumns_toCSV rows columns opts)]))
          [0..<length rows])"
    unfolding toCSV_def toCSV_lines_details ..
  have dec: "fromCSV str columns opts =
      Some (collectResults
              (map (\<lambda>r. decodeRowWith cols (includeEmptyValues opts)
                           (drop (headerOffset opts) results ! r) (r + headerOffset opts + 1))
                 [0..<length results - headerOffset opts]))"
    if "normalizeColumns_fromCSV (preprocess str) columns opts = Some (Inr cols)"
      and "csvToArray (preprocess str) (delimiterOf opts) = Some results"
    using that
    by (simp add: fromCSV_def Let_def mapIndexed_nth startIndex_headerOffset
        getRow_decodeRowWith[unfolded startIndex_headerOffset])
  from enc dec toCSV_line_number[of r rows columns opts] show ?thesis by blast
qed

theorem details_row_and_column_witness:
  "toCSV [[(''a'', JNull)], [(''a'', JNull)]]
     (Some [ColumnKey ''a'',
            ColumnObject \<lparr>header = Some ''H'', key = None, required = False,
              converter = Some (\<lambda>v d. JNum (int (cd_row d) * 10 + int (cd_column d))),
              parser = None, parseEmpty = False\<rparr>])
     \<lparr>includeHeader = True, includeEmptyValues = False, delimiter = None\<rparr>
   = [CHR '','', dq, CHR ''H'', dq, lf, CHR '','', CHR ''2'', CHR ''1'', lf, CHR '','', CHR ''3'', CHR ''1''] \<and>
   fromCSV [CHR ''h'', lf, CHR ''x'', CHR '','', CHR ''y'']
     (Some [ColumnKey ''a'',
            ColumnObject \<lparr>header = None, key = Some ''b'', required = False, converter = None,
              parser = Some (\<lambda>s d. JNum (int (pd_row d) * 10 + int (pd_column d))),
              parseEmpty = False\<rparr>])
     \<lparr>includeHeader = True, includeEmptyValues = False, delimiter = None\<rparr>
   = Some (Inr [[(''a'', JStr ''x''), (''b'', JNum 21)]])"
proof -
  let ?opts = "\<lparr>includeHeader = True, includeEmptyValues = False, delimiter = None\<rparr>"
  let ?str = "[CHR ''h'', lf, CHR ''x'', CHR '','', CHR ''y'']"
  let ?cb = "\<lparr>header = None, key = Some ''b'', required = False, converter = None,
              parser = Some (\<lambda>s d. JNum (int (pd_row d) * 10 + int (pd_column d))),
              parseEmpty = False\<rparr>"
  let ?cc = "\<lparr>header = Some ''H'', key = None, required = False,
              converter = Some (\<lambda>v d. JNum (int (cd_row d) * 10 + int (cd_column d))),
              parser = None, parseEmpty = False\<rparr>"
  let ?rows = "[[(''a'', JNull)], [(''a'', JNull)]]"
  note t = details_row_and_column[where rows = ?rows
      and columns = "Some [ColumnKey ''a'', ColumnObject ?cc]" and opts = ?opts]
  note u = details_row_and_column[where columns = "Some [ColumnKey ''a'', ColumnObject ?cb]"
      and opts = ?opts and str = ?str and cols = "[Some (keyColumn ''a''), Some ?cb]"
      and results = "[[Some ''h''], [Some ''x'', Some ''y'']]"]
  have h1: "normalizeColumns_fromCSV (preprocess ?str) (Some [ColumnKey ''a'', ColumnObject ?cb]) ?opts
            = Some (Inr [Some (keyColumn ''a''), Some ?cb])"
    by (simp add: normalizeColumns_fromCSV_def)
  have h2: "csvToArray (preprocess ?str) (delimiterOf ?opts) = Some [[Some ''h''], [Some ''x'', Some ''y'']]"
    by (simp add: preprocess_def stripLineBreak_def delimiterOf_def csvLoop.simps tokenizer_defs)
  from t have enc: "toCSV ?rows (Some [ColumnKey ''a'', ColumnObject ?cc]) ?opts
      = [CHR '','', dq, CHR ''H'', dq, lf, CHR '','', CHR ''2'', CHR ''1'', lf, CHR '','', CHR ''3'', CHR ''1'']"
    by (simp add: normalizeColumns_toCSV_def headerLine_def headerCell_def arrayJoin_def
        elementText_def encodeCellWith_def finishCell_def getProp_def propertyKey_def
        headerOffset_def delimiterOf_def escapeCSV_def intToString_def natToString.simps
        charAt_def keyColumn_def upt_rec)
  from u h1 h2 have "fromCSV ?str (Some [ColumnKey ''a'', ColumnObject ?cb]) ?opts =
      Some (collectResults
              (map (\<lambda>r. decodeRowWith [Some (keyColumn ''a''), Some ?cb] (includeEmptyValues ?opts)
                           (drop (headerOffset ?opts) [[Some ''h''], [Some ''x'', Some ''y'']] ! r)
                           (r + headerOffset ?opts + 1))
                 [0..<length [[Some ''h''], [Some ''x'', Some ''y'']] - headerOffset ?opts]))"
    by blast
  then have dec: "fromCSV ?str (Some [ColumnKey ''a'', ColumnObject ?cb]) ?opts
      = Some (Inr [[(''a'', JStr ''x''), (''b'', JNum 21)]])"
    by (simp add: headerOffset_def decodeRowWith_def decodeStepWith_def decodedValueWith_def
        rawCell_def isEmptyValue_def setProp_def keyColumn_def upt_rec)
  from enc dec show ?thesis by blast
qed

subsection \<open>Required columns\<close>

lemma processColumn_cases:
  assumes "c < length cols"
  shows "fromCSV_processColumn ie si line r res (cols ! c) c =
           (if requiredCellEmpty cols si line r c
            then Inl (Error (requiredMessage (columnKey (cols ! c))))
            else Inr (if \<not> isEmptyValue (parsedValue (the (cols ! c)) (columnKey (cols ! c)) si r c (rawCell line c)) \<or> ie
                      then (if columnKey (cols ! c) = [] then res else setProp res (columnKey (cols ! c)) (parsedValue (the (cols ! c)) (columnKey (cols ! c)) si r c (rawCell line c)))
                      else res))"
  using assms
  by (auto simp: fromCSV_processColumn_def requiredCellEmpty_def columnKey_def Let_def
      split: option.splits)

lemma processColumn_error:
  "c < length cols \<Longrightarrow> requiredCellEmpty cols si line r c \<Longrightarrow>
   fromCSV_processColumn ie si line r res (cols ! c) c = Inl (Error (requiredMessage (columnKey (cols ! c))))"
  by (simp add: processColumn_cases)

lemma processColumn_ok:
  "c < length cols \<Longrightarrow> \<not> requiredCellEmpty cols si line r c \<Longrightarrow>
   \<exists>res'. fromCSV_processColumn ie si line r res (cols ! c) c = Inr res'"
  by (simp add: processColumn_cases)

lemma fold_columns_prefix:
  assumes "n \<le> length cols"
  shows "case foldl (\<lambda>acc i. case acc of Inl e \<Rightarrow> Inl e
                            | Inr res \<Rightarrow> fromCSV_processColumn ie si line r res (cols ! i) i)
                (Inr []) [0..<n] of
           Inr res \<Rightarrow> \<forall>c<n. \<not> requiredCellEmpty cols si line r c
         | Inl e \<Rightarrow> \<exists>c<n. requiredCellEmpty cols si line r c \<and>
                     (\<forall>c'<c. \<not> requiredCellEmpty cols si line r c') \<and>
                     e = Error (requiredMessage (columnKey (cols ! c)))"
  using assms
proof (induction n)
  case 0
  show ?case by simp
next
  case (Suc n)
  let ?step = "\<lambda>acc i. case acc of Inl e \<Rightarrow> Inl e
                            | Inr res \<Rightarrow> fromCSV_processColumn ie si line r res (cols ! i) i"
  from Suc.prems have n: "n < length cols" and nle: "n \<le> length cols" by simp_all
  note ih = Suc.IH[OF nle]
  show ?case
  proof (cases "foldl ?step (Inr []) [0..<n]")
    case (Inl e)
    with ih obtain c where c: "c < n" "requiredCellEmpty cols si line r c"
      "\<forall>c'<c. \<not> requiredCellEmpty cols si line r c'" "e = Error (requiredMessage (columnKey (cols ! c)))"
      by auto
    from c(1) have "c < Suc n" by simp
    with Inl c show ?thesis by (auto intro!: exI[of _ c])
  next
    case (Inr res)
    with ih have none: "\<forall>c<n. \<not> requiredCellEmpty cols si line r c" by simp
    show ?thesis
    proof (cases "requiredCellEmpty cols si line r n")
      case True
      with Inr none processColumn_error[OF n True, where ie = ie and res = res] show ?thesis by auto
    next
      case False
      from processColumn_ok[OF n False, where ie = ie and res = res] obtain res' where
        "fromCSV_processColumn ie si line r res (cols ! n) n = Inr res'" by blast
      with Inr none False show ?thesis by (auto simp: less_Suc_eq)
    qed
  qed
qed

lemma getRow_error:
  assumes "c < length cols" and "requiredCellEmpty cols si line r c"
  shows "\<exists>c0\<le>c. requiredCellEmpty cols si line r c0 \<and>
           (\<forall>c'<c0. \<not> requiredCellEmpty cols si line r c') \<and>
           getRow cols ie si line r = Inl (Error (requiredMessage (columnKey (cols ! c0))))"
proof -
  note p = fold_columns_prefix[where n = "length cols" and cols = cols and ie = ie and si = si
      and line = line and r = r, simplified]
  show ?thesis
  proof (cases "getRow cols ie si line r")
    case (Inr res)
    with p assms show ?thesis by (simp add: getRow_def reduceIndexed_nth)
  next
    case (Inl e)
    with p obtain c0 where c0: "c0 < length cols" "requiredCellEmpty cols si line r c0"
      "\<forall>c'<c0. \<not> requiredCellEmpty cols si line r c'" "e = Error (requiredMessage (columnKey (cols ! c0)))"
      by (auto simp: getRow_def reduceIndexed_nth)
    from c0(3) assms(2) have "c0 \<le> c" by (meson not_le_imp_less)
    with c0 Inl show ?thesis by blast
  qed
qed

lemma getRow_ok:
  assumes "\<forall>c. \<not> requiredCellEmpty cols si line r c"
  shows "\<exists>res. getRow cols ie si line r = Inr res"
proof -
  note p = fold_columns_prefix[where n = "length cols" and cols = cols and ie = ie and si = si
      and line = line and r = r, simplified]
  show ?thesis
  proof (cases "getRow cols ie si line r")
    case (Inr res)
    then show ?thesis by blast
  next
    case (Inl e)
    with p assms show ?thesis by (auto simp: getRow_def reduceIndexed_nth)
  qed
qed

lemma collectResults_first_error:
  "i < length rs \<Longrightarrow> rs ! i = Inl e \<Longrightarrow> (\<forall>j<i. \<exists>x. rs ! j = Inr x) \<Longrightarrow> collectResults rs = Inl e"
proof (induction rs arbitrary: i)
  case Nil
  then show ?case by simp
next
  case (Cons a rs)
  show ?case
  proof (cases i)
    case 0
    with Cons.prems show ?thesis by simp
  next
    case (Suc k)
    with Cons.prems have k: "k < length rs" "rs ! k = Inl e" by simp_all
    from Cons.prems(3) Suc have "\<forall>j<k. \<exists>x. rs ! j = Inr x" by auto
    with Cons.IH k have t: "collectResults rs = Inl e" by blast
    from Cons.prems(3) Suc obtain x where "a = Inr x" by force
    with t show ?thesis by simp
  qed
qed

lemma fromCSV_given_columns:
  "csvToArray (preprocess str) (delimiterOf opts) = Some results \<Longrightarrow>
   fromCSV str (Some cs) opts =
     Some (collectResults (mapIndexed (getRow (map detectColumn cs) (includeEmptyValues opts) (startIndexOf opts))
             (drop (startIndexOf opts) results)))"
  by (simp add: fromCSV_def normalizeColumns_fromCSV_def Let_def)

lemma required_first_empty:
  assumes tok: "csvToArray (preprocess str) (delimiterOf opts) = Some results"
    and r: "r < length (drop (startIndexOf opts) results)"
    and fail: "requiredCellEmpty (map detectColumn cs) (startIndexOf opts)
                 (drop (startIndexOf opts) results ! r) r c"
  shows "\<exists>r0 c0.
           (r0 < r \<or> (r0 = r \<and> c0 \<le> c)) \<and>
           requiredCellEmpty (map detectColumn cs) (startIndexOf opts)
             (drop (startIndexOf opts) results ! r0) r0 c0 \<and>
           (\<forall>r' c'. r' < r0 \<or> (r' = r0 \<and> c' < c0) \<longrightarrow>
                \<not> requiredCellEmpty (map detectColumn cs) (startIndexOf opts)
                    (drop (startIndexOf opts) results ! r') r' c') \<and>
           fromCSV str (Some cs) opts =
             Some (Inl (Error (''Required column '' @ columnKey (map detectColumn cs ! c0) @ '' is empty'')))"
proof -
  define cols where "cols = map detectColumn cs"
  define si where "si = startIndexOf opts"
  define lines where "lines = drop si results"
  define ie where "ie = includeEmptyValues opts"
  define bad where "bad = (\<lambda>r'. \<exists>c'. requiredCellEmpty cols si (lines ! r') r' c')"
  define r0 where "r0 = (LEAST r'. bad r')"
  from fail have "bad r" unfolding bad_def cols_def si_def lines_def by blast
  then have r0: "bad r0" and r0le: "r0 \<le> r" and r0min: "\<And>r'. r' < r0 \<Longrightarrow> \<not> bad r'"
    unfolding r0_def by (rule LeastI, rule Least_le, metis not_less_Least)
  from r0 obtain c1 where c1: "requiredCellEmpty cols si (lines ! r0) r0 c1"
    unfolding bad_def by blast
  then have c1len: "c1 < length cols" by (simp add: requiredCellEmpty_def)
  from getRow_error[OF c1len c1, where ie = ie] obtain c0 where
    c0: "c0 \<le> c1" "requiredCellEmpty cols si (lines ! r0) r0 c0"
        "\<forall>c'<c0. \<not> requiredCellEmpty cols si (lines ! r0) r0 c'"
        "getRow cols ie si (lines ! r0) r0 = Inl (Error (requiredMessage (columnKey (cols ! c0))))"
    by blast
  have pos: "r0 < r \<or> (r0 = r \<and> c0 \<le> c)"
  proof (cases "r0 = r")
    case True
    with c0(3) fail have "c0 \<le> c"
      unfolding cols_def si_def lines_def by (meson not_le_imp_less)
    with True show ?thesis by simp
  next
    case False
    with r0le show ?thesis by simp
  qed
  have before: "\<forall>r' c'. r' < r0 \<or> (r' = r0 \<and> c' < c0) \<longrightarrow> \<not> requiredCellEmpty cols si (lines ! r') r' c'"
    using r0min c0(3) unfolding bad_def by blast
  let ?rs = "map (\<lambda>i. getRow cols ie si (lines ! i) i) [0..<length lines]"
  from r r0le have r0len: "r0 < length lines" unfolding lines_def si_def by simp
  have a: "?rs ! r0 = Inl (Error (requiredMessage (columnKey (cols ! c0))))"
    using r0len c0(4) by simp
  have b: "\<forall>j<r0. \<exists>x. ?rs ! j = Inr x"
  proof (intro allI impI)
    fix j assume j: "j < r0"
    with r0min have "\<forall>c. \<not> requiredCellEmpty cols si (lines ! j) j c" unfolding bad_def by blast
    from getRow_ok[OF this, where ie = ie] j r0len show "\<exists>x. ?rs ! j = Inr x" by simp
  qed
  have "collectResults ?rs = Inl (Error (requiredMessage (columnKey (cols ! c0))))"
    by (rule collectResults_first_error[where i = r0]) (use r0len a b in simp_all)
  then have "fromCSV str (Some cs) opts = Some (Inl (Error (requiredMessage (columnKey (cols ! c0)))))"
    using fromCSV_given_columns[OF tok, of cs]
    by (simp add: mapIndexed_nth cols_def si_def lines_def ie_def)
  with pos c0(2) before show ?thesis
    unfolding cols_def si_def lines_def requiredMessage_def by blast
qed

text \<open>
  Claim C3. Let \<^verbatim>\<open>fromCSV\<close> be called with a column list, and let the tokenizer return.
  If for some data row \<open>r\<close> a column \<open>c\<close> that has a key and is marked required has an empty
  value after parsing (\<^verbatim>\<open>null\<close>, \<^verbatim>\<open>undefined\<close>, also for a row shorter than the column
  list, or the empty string), then \<^verbatim>\<open>fromCSV\<close> throws the error "Required column K is
  empty" and returns no records, where K is the key of the first such column of the first
  such row: that cell is \<open>(r, c)\<close> itself unless an earlier one is empty as well.
\<close>

theorem required_column_empty_throws:
  assumes tok: "csvToArray (preprocess str) (delimiterOf opts) = Some results"
    and r: "r < length (drop (startIndexOf opts) results)"
    and fail: "requiredCellEmpty (map detectColumn cs) (startIndexOf opts)
                 (drop (startIndexOf opts) results ! r) r c"
  shows "(\<exists>r0 c0.
           (r0 < r \<or> (r0 = r \<and> c0 \<le> c)) \<and>
           requiredCellEmpty (map detectColumn cs) (startIndexOf opts)
             (drop (startIndexOf opts) results ! r0) r0 c0 \<and>
           (\<forall>r' c'. r' < r0 \<or> (r' = r0 \<and> c' < c0) \<longrightarrow>
                \<not> requiredCellEmpty (map detectColumn cs) (startIndexOf opts)
                    (drop (startIndexOf opts) results ! r') r' c') \<and>
           fromCSV str (Some cs) opts =
             Some (Inl (Error (''Required column '' @ columnKey (map detectColumn cs ! c0) @ '' is empty'')))) \<and>
         ((\<forall>r' c'. r' < r \<or> (r' = r \<and> c' < c) \<longrightarrow>
                \<not> requiredCellEmpty (map detectColumn cs) (startIndexOf opts)
                    (drop (startIndexOf opts) results ! r') r' c') \<longrightarrow>
          fromCSV str (Some cs) opts =
            Some (Inl (Error (''Required column '' @ columnKey (map detectColumn cs ! c) @ '' is empty''))))"
proof (intro conjI impI)
  show "\<exists>r0 c0.
           (r0 < r \<or> (r0 = r \<and> c0 \<le> c)) \<and>
           requiredCellEmpty (map detectColumn cs) (startIndexOf opts)
             (drop (startIndexOf opts) results ! r0) r0 c0 \<and>
           (\<forall>r' c'. r' < r0 \<or> (r' = r0 \<and> c' < c0) \<longrightarrow>
                \<not> requiredCellEmpty (map detectColumn cs) (startIndexOf opts)
                    (drop (startIndexOf opts) results ! r') r' c') \<and>
           fromCSV str (Some cs) opts =
             Some (Inl (Error (''Required column '' @ columnKey (map detectColumn cs ! c0) @ '' is empty'')))"
    by (rule required_first_empty[OF tok r fail])
next
  assume first: "\<forall>r' c'. r' < r \<or> (r' = r \<and> c' < c) \<longrightarrow>
                \<not> requiredCellEmpty (map detectColumn cs) (startIndexOf opts)
                    (drop (startIndexOf opts) results ! r') r' c'"
  from required_first_empty[OF tok r fail] obtain r0 c0 where
    p: "r0 < r \<or> (r0 = r \<and> c0 \<le> c)"
       "requiredCellEmpty (map detectColumn cs) (startIndexOf opts)
             (drop (startIndexOf opts) results ! r0) r0 c0"
       "fromCSV str (Some cs) opts =
             Some (Inl (Error (''Required column '' @ columnKey (map detectColumn cs ! c0) @ '' is empty'')))"
    by (elim exE conjE)
  have "\<not> (r0 < r \<or> (r0 = r \<and> c0 < c))"
  proof
    assume "r0 < r \<or> (r0 = r \<and> c0 < c)"
    with first have "\<not> requiredCellEmpty (map detectColumn cs) (startIndexOf opts)
                    (drop (startIndexOf opts) results ! r0) r0 c0" by (elim allE impE)
    with p(2) show False by simp
  qed
  with p(1) have "r0 = r \<and> c0 = c" by auto
  with p(3) show "fromCSV str (Some cs) opts =
            Some (Inl (Error (''Required column '' @ columnKey (map detectColumn cs ! c) @ '' is empty'')))"
    by simp
qed

theorem required_column_empty_throws_witness:
  "fromCSV ''x''
     (Some [ColumnObject \<lparr>header = None, key = Some ''a'', required = True, converter = None,
                          parser = None, parseEmpty = False\<rparr>,
            ColumnObject \<lparr>header = None, key = Some ''b'', required = True, converter = None,
                          parser = None, parseEmpty = False\<rparr>])
     \<lparr>includeHeader = False, includeEmptyValues = False, delimiter = None\<rparr>
   = Some (Inl (Error ''Required column b is empty''))"
proof -
  let ?opts = "\<lparr>includeHeader = False, includeEmptyValues = False, delimiter = None\<rparr>"
  let ?a = "\<lparr>header = None, key = Some ''a'', required = True, converter = None,
                          parser = None, parseEmpty = False\<rparr>"
  let ?b = "\<lparr>header = None, key = Some ''b'', required = True, converter = None,
                          parser = None, parseEmpty = False\<rparr>"
  let ?cs = "[ColumnObject ?a, ColumnObject ?b]"
  have tok: "csvToArray (preprocess ''x'') (delimiterOf ?opts) = Some [[Some ''x'']]"
    by (simp add: preprocess_def stripLineBreak_def delimiterOf_def csvLoop.simps tokenizer_defs)
  have r: "0 < length (drop (startIndexOf ?opts) [[Some ''x'']])"
    by (simp add: startIndexOf_def)
  have fail: "requiredCellEmpty (map detectColumn ?cs) (startIndexOf ?opts)
                 (drop (startIndexOf ?opts) [[Some ''x'']] ! 0) 0 1"
    by (simp add: requiredCellEmpty_def startIndexOf_def parsedValue_def rawCell_def isEmptyValue_def)
  have ok: "\<not> requiredCellEmpty (map detectColumn ?cs) (startIndexOf ?opts)
                 (drop (startIndexOf ?opts) [[Some ''x'']] ! 0) 0 0"
    by (simp add: requiredCellEmpty_def startIndexOf_def parsedValue_def rawCell_def isEmptyValue_def)
  have first: "\<forall>r' c'. r' < 0 \<or> (r' = 0 \<and> c' < 1) \<longrightarrow>
                \<not> requiredCellEmpty (map detectColumn ?cs) (startIndexOf ?opts)
                    (drop (startIndexOf ?opts) [[Some ''x'']] ! r') r' c'"
    using ok by simp
  from required_column_empty_throws[OF tok r fail] first
  have "fromCSV ''x'' (Some ?cs) ?opts =
          Some (Inl (Error (''Required column '' @ columnKey (map detectColumn ?cs ! 1) @ '' is empty'')))"
    by (elim conjE impE)
  then show ?thesis by (simp add: columnKey_def)
qed

subsection \<open>Round trip\<close>

lemma escBody_Nil: "escBody [] = []"
  by (simp add: escBody_def)

lemma escBody_Cons: "escBody (c # v) = (if c = dq then [dq, dq] else [c]) @ escBody v"
  by (simp add: escBody_def)

lemma escapeCSV_body: "escapeCSV v = dq # escBody v @ [dq]"
  by (simp add: escapeCSV_def escBody_def)

lemma escBody_nonempty: "v \<noteq> [] \<Longrightarrow> escBody v \<noteq> []"
  by (cases v) (simp_all add: escBody_Cons)

lemma scanQuoted_escaped:
  "rest = [] \<or> hd rest \<noteq> dq \<Longrightarrow> scanQuoted (escBody v @ dq # rest) = Some (length (escBody v))"
proof (induction v)
  case Nil
  then show ?case by (cases rest) (simp_all add: escBody_Nil)
next
  case (Cons c v)
  then have ih: "scanQuoted (escBody v @ dq # rest) = Some (length (escBody v))" by simp
  obtain x xs where e: "escBody v @ dq # rest = x # xs" by (cases "escBody v") simp_all
  show ?case
  proof (cases "c = dq")
    case True
    with ih show ?thesis by (simp add: escBody_Cons)
  next
    case False
    with ih e show ?thesis by (simp add: escBody_Cons)
  qed
qed

lemma unescape_escaped: "unescapeQuotes (escBody v) = v"
proof (induction v)
  case Nil
  show ?case by (simp add: escBody_Nil)
next
  case (Cons c v)
  show ?case
  proof (cases "c = dq")
    case True
    with Cons show ?thesis by (simp add: escBody_Cons)
  next
    case False
    show ?thesis
    proof (cases v)
      case Nil
      with False show ?thesis by (simp add: escBody_Cons escBody_Nil)
    next
      case (Cons y ys)
      then obtain x xs where "escBody v = x # xs"
        using escBody_nonempty[of v] by (cases "escBody v") simp_all
      with Cons.IH False show ?thesis by (simp add: escBody_Cons)
    qed
  qed
qed

lemma cellTextValue_quoted: "cellTextValue (escapeCSV v) = v"
  by (simp add: cellTextValue_def escapeCSV_body unescape_escaped butlast_append)

lemma cellTextValue_plain: "plainCellText d t \<Longrightarrow> cellTextValue t = t"
  by (cases t) (auto simp: cellTextValue_def plainCellText_def isPlainChar_def)

text \<open>One match of the pattern on a well-formed text.\<close>

lemma matchSeparator_token:
  assumes d: "d \<noteq> dq" "d \<noteq> lf" "d \<noteq> cr"
    and sep: "(pre = [] \<and> sep = []) \<or> (pre \<noteq> [] \<and> (sep = [d] \<or> sep = [lf]))"
    and t: "goodCellText d t"
  shows "matchSeparator d (pre @ sep @ t @ rest) (length pre) = Some (length sep)"
proof -
  from t obtain x xs where tx: "t = x # xs" and x: "x \<noteq> d" "x \<noteq> lf" "x \<noteq> cr"
    using d by (cases t)
      (auto simp: goodCellText_def quotedCellText_def plainCellText_def escapeCSV_body isPlainChar_def)
  from sep show ?thesis
  proof (elim disjE conjE)
    assume "pre = []" "sep = []"
    with tx x show ?thesis by (simp add: matchSeparator_def)
  next
    assume "pre \<noteq> []" "sep = [d]"
    then show ?thesis by (simp add: matchSeparator_def)
  next
    assume "pre \<noteq> []" "sep = [lf]"
    with d show ?thesis by (simp add: matchSeparator_def)
  qed
qed

lemma matchAt_token:
  assumes d: "d \<noteq> dq" "d \<noteq> lf" "d \<noteq> cr"
    and sep: "(pre = [] \<and> sep = []) \<or> (pre \<noteq> [] \<and> (sep = [d] \<or> sep = [lf]))"
    and t: "goodCellText d t"
    and rest: "rest = [] \<or> hd rest = d \<or> hd rest = lf"
  shows "\<exists>m. matchAt d (pre @ sep @ t @ rest) (length pre) = Some m \<and>
             matchEnd m = length pre + length sep + length t \<and>
             group1 m = sep \<and> cellOfMatch m = Some (cellTextValue t)"
proof -
  note ms = matchSeparator_token[OF d sep t, of rest]
  have dr: "drop (length pre + length sep) (pre @ sep @ t @ rest) = t @ rest" by simp
  have g1: "take (length sep) (drop (length pre) (pre @ sep @ t @ rest)) = sep" by simp
  from t show ?thesis unfolding goodCellText_def
  proof
    assume "quotedCellText t"
    then obtain v where v: "t = escapeCSV v" "v \<noteq> []" unfolding quotedCellText_def by blast
    from rest d have r: "rest = [] \<or> hd rest \<noteq> dq" by auto
    have mq: "matchQuoted (t @ rest) = Some (length (escBody v))"
      using scanQuoted_escaped[OF r, of v] v by (simp add: matchQuoted_def escapeCSV_body)
    have g2: "take (length (escBody v)) (drop 1 (t @ rest)) = escBody v"
      using v by (simp add: escapeCSV_body)
    have len: "length t = length (escBody v) + 2" using v by (simp add: escapeCSV_body)
    show ?thesis
      using ms dr g1 mq g2 len v escBody_nonempty[OF v(2)]
      by (simp add: matchAt_def cellOfMatch_def unescape_escaped cellTextValue_quoted)
  next
    assume p: "plainCellText d t"
    then obtain x xs where tx: "t = x # xs" "x \<noteq> dq"
      by (cases t) (auto simp: plainCellText_def isPlainChar_def)
    then have mq: "matchQuoted (t @ rest) = None" by (simp add: matchQuoted_def)
    from p have all: "\<forall>c\<in>set t. isPlainChar d c" by (simp add: plainCellText_def list_all_iff)
    have tw: "takeWhile (isPlainChar d) (t @ rest) = t"
    proof (cases rest)
      case Nil
      with all show ?thesis by simp
    next
      case (Cons y ys)
      with rest have "\<not> isPlainChar d y" by (auto simp: isPlainChar_def)
      with all Cons show ?thesis by (simp add: takeWhile_append2)
    qed
    show ?thesis
      using ms dr g1 mq tw cellTextValue_plain[OF p]
      by (simp add: matchAt_def cellOfMatch_def)
  qed
qed


lemma regexExec_at_end: "pre \<noteq> [] \<Longrightarrow> regexExec d pre (length pre) = None"
  by (simp add: regexExec.simps[of d pre "length pre"] regexExec.simps[of d pre "Suc (length pre)"]
      matchAt_def matchSeparator_def)

lemma flatTokens_Cons: "flatTokens ((sep, t) # ts) = sep @ t @ flatTokens ts"
  by (simp add: flatTokens_def)

lemma flatTokens_hd:
  assumes "\<forall>(sep, t)\<in>set ts. sep = [d] \<or> sep = [lf]"
  shows "flatTokens ts = [] \<or> hd (flatTokens ts) = d \<or> hd (flatTokens ts) = lf"
proof (cases ts)
  case Nil
  then show ?thesis by (simp add: flatTokens_def)
next
  case (Cons a ts')
  obtain sep t where a: "a = (sep, t)" by (cases a)
  with assms Cons have "sep = [d] \<or> sep = [lf]" by auto
  with Cons a show ?thesis by (auto simp: flatTokens_Cons)
qed

lemma csvLoop_tokens:
  assumes d: "d \<noteq> dq" "d \<noteq> lf" "d \<noteq> cr"
  shows "(\<forall>(sep, t)\<in>set ts. goodCellText d t) \<Longrightarrow>
         (ts = [] \<longrightarrow> pre \<noteq> []) \<Longrightarrow>
         (pre = [] \<longrightarrow> fst (hd ts) = []) \<Longrightarrow>
         (pre \<noteq> [] \<longrightarrow> (\<forall>(sep, t)\<in>set ts. sep = [d] \<or> sep = [lf])) \<Longrightarrow>
         (\<forall>(sep, t)\<in>set (drop 1 ts). sep = [d] \<or> sep = [lf]) \<Longrightarrow>
         csvLoop d (pre @ flatTokens ts) (length pre) results = Some (tokenRows results ts)"
proof (induction ts arbitrary: pre results)
  case Nil
  then have "pre \<noteq> []" by simp
  then show ?case
    by (subst csvLoop.simps) (simp add: flatTokens_def tokenRows_def regexExec_at_end)
next
  case (Cons a ts)
  obtain sep t where a: "a = (sep, t)" by (cases a)
  from Cons.prems(1) a have good: "goodCellText d t" and goods: "\<forall>(sep, t)\<in>set ts. goodCellText d t"
    by auto
  from Cons.prems(5) have seps: "\<forall>(sep, t)\<in>set ts. sep = [d] \<or> sep = [lf]" by simp
  from Cons.prems(3,4) a have sep: "(pre = [] \<and> sep = []) \<or> (pre \<noteq> [] \<and> (sep = [d] \<or> sep = [lf]))"
    by (cases "pre = []") auto
  note rest = flatTokens_hd[OF seps]
  from matchAt_token[OF d sep good rest] obtain m where
    m: "matchAt d (pre @ sep @ t @ flatTokens ts) (length pre) = Some m"
       "matchEnd m = length pre + length sep + length t"
       "group1 m = sep" "cellOfMatch m = Some (cellTextValue t)"
    by blast
  let ?str = "pre @ sep @ t @ flatTokens ts"
  have ex: "regexExec d ?str (length pre) = Some m"
    using m(1) by (subst regexExec.simps) simp
  from sep d have row: "(length sep > 0 \<and> sep \<noteq> [d]) \<longleftrightarrow> sep = [lf]" by auto
  define res' where
    "res' = pushValue (if sep = [lf] then results @ [[]] else results) (Some (cellTextValue t))"
  have body: "loopBody d m results = res'"
    using m(3,4) row by (simp add: loopBody_def res'_def)
  from good have tne: "t \<noteq> []"
    by (auto simp: goodCellText_def quotedCellText_def plainCellText_def escapeCSV_body)
  let ?pre = "pre @ sep @ t"
  have ih: "csvLoop d (?pre @ flatTokens ts) (length ?pre) res' = Some (tokenRows res' ts)"
  proof (rule Cons.IH)
    show "\<forall>(sep, t)\<in>set ts. goodCellText d t" by (rule goods)
    show "ts = [] \<longrightarrow> ?pre \<noteq> []" using tne by simp
    show "?pre = [] \<longrightarrow> fst (hd ts) = []" using tne by simp
    show "?pre \<noteq> [] \<longrightarrow> (\<forall>(sep, t)\<in>set ts. sep = [d] \<or> sep = [lf])" using seps by simp
    show "\<forall>(sep, t)\<in>set (drop 1 ts). sep = [d] \<or> sep = [lf]"
      using seps by (meson in_set_dropD)
  qed
  have len: "matchEnd m = length ?pre" using m(2) by simp
  have "csvLoop d ?str (length pre) results =
        csvLoop d ?str (matchEnd m) (loopBody d m results)"
    by (subst csvLoop.simps) (simp add: ex)
  also have "\<dots> = Some (tokenRows res' ts)"
    unfolding len body using ih by simp
  finally have "csvLoop d ?str (length pre) results = Some (tokenRows res' ts)" .
  moreover have "tokenRows results (a # ts) = tokenRows res' ts"
    by (simp add: a tokenRows_def res'_def)
  ultimately show ?case
    by (simp add: a flatTokens_Cons)
qed

text \<open>The tokens of a list of lines, and the text that joins the lines.\<close>

lemma flatTokens_append: "flatTokens (a @ b) = flatTokens a @ flatTokens b"
  by (simp add: flatTokens_def)

lemma flatTokens_rest: "flatTokens (map (\<lambda>t'. ([d], t')) ts) = concat (map (\<lambda>t'. [d] @ t') ts)"
  by (induction ts) (simp_all add: flatTokens_def)

lemma joinStrings_Cons: "joinStrings sep (x # xs) = x @ concat (map (\<lambda>y. sep @ y) xs)"
  by (induction sep "x # xs" arbitrary: x xs rule: joinStrings.induct) simp_all

lemma flatTokens_line: "line \<noteq> [] \<Longrightarrow> flatTokens (lineTokens d sep line) = sep @ joinStrings [d] line"
  by (cases line) (simp_all add: lineTokens_def flatTokens_Cons flatTokens_rest joinStrings_Cons)

lemma flatTokens_lines_rest:
  "\<forall>l\<in>set ls. l \<noteq> [] \<Longrightarrow>
   flatTokens (concat (map (lineTokens d [lf]) ls)) = concat (map (\<lambda>l. [lf] @ joinStrings [d] l) ls)"
  by (induction ls) (simp_all add: flatTokens_append flatTokens_line, simp add: flatTokens_def)

lemma flatTokens_lines:
  assumes "lines \<noteq> []" and "\<forall>l\<in>set lines. l \<noteq> []"
  shows "flatTokens (linesTokens d lines) = joinStrings [lf] (map (joinStrings [d]) lines)"
proof -
  from assms obtain l ls where l: "lines = l # ls" by (cases lines) auto
  with assms have "l \<noteq> []" "\<forall>l\<in>set ls. l \<noteq> []" by auto
  then show ?thesis
    by (simp add: l flatTokens_append flatTokens_line flatTokens_lines_rest joinStrings_Cons
        comp_def)
qed

text \<open>The rows that the loop builds from the tokens of a list of lines.\<close>

lemma tokenRows_append: "tokenRows res (a @ b) = tokenRows (tokenRows res a) b"
  by (simp add: tokenRows_def)

lemma tokenRows_rest:
  assumes "d \<noteq> lf" and "res \<noteq> []"
  shows "tokenRows res (map (\<lambda>t'. ([d], t')) ts) =
           butlast res @ [last res @ map (\<lambda>t. Some (cellTextValue t)) ts]"
  using assms(2)
proof (induction ts arbitrary: res)
  case Nil
  then show ?case by (simp add: tokenRows_def)
next
  case (Cons t ts)
  have step: "tokenRows res (map (\<lambda>t'. ([d], t')) (t # ts)) =
        tokenRows (pushValue res (Some (cellTextValue t))) (map (\<lambda>t'. ([d], t')) ts)"
    using assms(1) by (simp add: tokenRows_def)
  have ne: "pushValue res (Some (cellTextValue t)) \<noteq> []" by (simp add: pushValue_def)
  show ?case
    unfolding step Cons.IH[OF ne] by (simp add: pushValue_def)
qed

lemma tokenRows_line:
  assumes "d \<noteq> lf" and "res \<noteq> []" and "line \<noteq> []"
  shows "tokenRows res (lineTokens d [lf] line) = res @ [map (\<lambda>t. Some (cellTextValue t)) line]"
proof -
  from assms(3) obtain t ts where l: "line = t # ts" by (cases line) auto
  have "tokenRows res (lineTokens d [lf] line) =
        tokenRows (pushValue (res @ [[]]) (Some (cellTextValue t))) (map (\<lambda>t'. ([d], t')) ts)"
    by (simp add: l lineTokens_def tokenRows_def)
  also have "\<dots> = res @ [map (\<lambda>t. Some (cellTextValue t)) line]"
    by (subst tokenRows_rest[OF assms(1)]) (simp_all add: pushValue_def l)
  finally show ?thesis .
qed

lemma tokenRows_first_line:
  assumes "d \<noteq> lf" and "line \<noteq> []"
  shows "tokenRows [[]] (lineTokens d [] line) = [map (\<lambda>t. Some (cellTextValue t)) line]"
proof -
  from assms(2) obtain t ts where l: "line = t # ts" by (cases line) auto
  have "tokenRows [[]] (lineTokens d [] line) =
        tokenRows (pushValue [[]] (Some (cellTextValue t))) (map (\<lambda>t'. ([d], t')) ts)"
    by (simp add: l lineTokens_def tokenRows_def)
  also have "\<dots> = [map (\<lambda>t. Some (cellTextValue t)) line]"
    by (subst tokenRows_rest[OF assms(1)]) (simp_all add: pushValue_def l)
  finally show ?thesis .
qed

lemma tokenRows_lines_rest:
  assumes "d \<noteq> lf"
  shows "res \<noteq> [] \<Longrightarrow> \<forall>l\<in>set ls. l \<noteq> [] \<Longrightarrow>
     tokenRows res (concat (map (lineTokens d [lf]) ls)) =
       res @ map (map (\<lambda>t. Some (cellTextValue t))) ls"
proof (induction ls arbitrary: res)
  case Nil
  show ?case by (simp add: tokenRows_def)
next
  case (Cons l ls)
  then have l: "l \<noteq> []" and ls: "\<forall>l\<in>set ls. l \<noteq> []" by simp_all
  have ne: "res @ [map (\<lambda>t. Some (cellTextValue t)) l] \<noteq> []" by simp
  show ?case
    by (simp add: tokenRows_append tokenRows_line[OF assms Cons.prems(1) l] Cons.IH[OF ne ls])
qed

lemma tokenRows_lines:
  assumes "d \<noteq> lf" and "lines \<noteq> []" and "\<forall>l\<in>set lines. l \<noteq> []"
  shows "tokenRows [[]] (linesTokens d lines) = map (map (\<lambda>t. Some (cellTextValue t))) lines"
proof -
  from assms obtain l ls where l: "lines = l # ls" by (cases lines) auto
  with assms have ne: "l \<noteq> []" and ls: "\<forall>l\<in>set ls. l \<noteq> []" by auto
  show ?thesis
    by (simp add: l tokenRows_append tokenRows_first_line[OF assms(1) ne]
        tokenRows_lines_rest[OF assms(1) _ ls])
qed

text \<open>The tokenizer reads joined lines of well-formed cell texts back cell by cell.\<close>

lemma lineTokens_seps:
  "\<forall>(sep, t)\<in>set (drop 1 (lineTokens d s line)). sep = [d] \<or> sep = [lf]"
  by (cases line) (auto simp: lineTokens_def)

lemma lineTokens_lf_seps:
  "\<forall>(sep, t)\<in>set (lineTokens d [lf] line). sep = [d] \<or> sep = [lf]"
  by (cases line) (auto simp: lineTokens_def)

lemma lineTokens_cells: "(sep, t) \<in> set (lineTokens d s line) \<Longrightarrow> t \<in> set line"
  by (cases line) (auto simp: lineTokens_def)

lemma csvToArray_lines:
  assumes d: "d \<noteq> dq" "d \<noteq> lf" "d \<noteq> cr"
    and ne: "lines \<noteq> []" and lne: "\<forall>l\<in>set lines. l \<noteq> []"
    and good: "\<forall>l\<in>set lines. \<forall>t\<in>set l. goodCellText d t"
  shows "csvToArray (joinStrings [lf] (map (joinStrings [d]) lines)) d =
           Some (map (map (\<lambda>t. Some (cellTextValue t))) lines)"
proof -
  from ne obtain l ls where l: "lines = l # ls" by (cases lines) auto
  with lne obtain t ts where t: "l = t # ts" by (cases l) auto
  let ?ts = "linesTokens d lines"
  have cells: "\<forall>(sep, t)\<in>set ?ts. goodCellText d t"
    using good l by (auto dest!: lineTokens_cells)
  have hd0: "fst (hd ?ts) = []" by (simp add: l t lineTokens_def)
  have nonempty: "?ts \<noteq> []" by (simp add: l t lineTokens_def)
  have "drop 1 ?ts = map (\<lambda>t'. ([d], t')) ts @ concat (map (lineTokens d [lf]) ls)"
    by (simp add: l t lineTokens_def)
  then have seps: "\<forall>(sep, t)\<in>set (drop 1 ?ts). sep = [d] \<or> sep = [lf]"
    using lineTokens_lf_seps[of d] by auto
  have "csvLoop d ([] @ flatTokens ?ts) (length ([]::string)) [[]] = Some (tokenRows [[]] ?ts)"
    by (rule csvLoop_tokens[OF d cells]) (use hd0 nonempty seps in simp_all)
  then show ?thesis
    by (simp add: csvToArray_def flatTokens_lines[OF ne lne] tokenRows_lines[OF d(2) ne lne])
qed

text \<open>Pre-processing leaves such a text as it is.\<close>

lemma collapse_id: "noDoubleLf s \<Longrightarrow> collapseLineBreaks s = s"
  by (induction s rule: collapseLineBreaks.induct) auto

lemma strip_id: "s \<noteq> [] \<Longrightarrow> hd s \<noteq> lf \<Longrightarrow> last s \<noteq> lf \<Longrightarrow> stripLineBreak s = s"
  by (cases s) (auto simp: stripLineBreak_def)

lemma noDoubleLf_Cons: "noDoubleLf (c # s) \<longleftrightarrow> noDoubleLf s \<and> \<not> (c = lf \<and> s \<noteq> [] \<and> hd s = lf)"
  by (cases s) auto

lemma noDoubleLf_append:
  "noDoubleLf (a @ b) \<longleftrightarrow>
     noDoubleLf a \<and> noDoubleLf b \<and> (a = [] \<or> b = [] \<or> last a \<noteq> lf \<or> hd b \<noteq> lf)"
proof (induction a)
  case Nil
  show ?case by simp
next
  case (Cons c a)
  show ?case
  proof (cases a)
    case Nil
    then show ?thesis by (cases b) auto
  next
    case (Cons x xs)
    with Cons.IH show ?thesis by (auto simp: noDoubleLf_Cons)
  qed
qed


lemma tidy_join2: "tidy a \<Longrightarrow> tidy b \<Longrightarrow> tidy (a @ [c] @ b)"
  by (auto simp: tidy_def noDoubleLf_append noDoubleLf_Cons hd_append)

lemma tidy_joinStrings: "xs \<noteq> [] \<Longrightarrow> \<forall>x\<in>set xs. tidy x \<Longrightarrow> tidy (joinStrings [c] xs)"
proof (induction "[c]" xs rule: joinStrings.induct)
  case 1
  then show ?case by simp
next
  case (2 x)
  then show ?case by simp
next
  case (3 x y ys)
  then have "tidy (joinStrings [c] (y # ys))" by simp
  with 3 tidy_join2[of x "joinStrings [c] (y # ys)" c] show ?case by simp
qed

lemma hd_escBody: "v \<noteq> [] \<Longrightarrow> hd (escBody v) = hd v"
  by (cases v) (simp_all add: escBody_Cons)

lemma noDoubleLf_escBody: "noDoubleLf v \<Longrightarrow> noDoubleLf (escBody v)"
proof (induction v)
  case Nil
  show ?case by (simp add: escBody_Nil)
next
  case (Cons c v)
  then have ih: "noDoubleLf (escBody v)" by (simp add: noDoubleLf_Cons)
  show ?case
  proof (cases "v = []")
    case True
    then show ?thesis by (simp add: escBody_Cons escBody_Nil)
  next
    case False
    with Cons.prems have "\<not> (c = lf \<and> hd v = lf)" by (simp add: noDoubleLf_Cons)
    with ih False show ?thesis
      by (auto simp: escBody_Cons noDoubleLf_Cons hd_escBody escBody_nonempty)
  qed
qed

lemma noDoubleLf_plain: "lf \<notin> set s \<Longrightarrow> noDoubleLf s"
  by (induction s rule: noDoubleLf.induct) auto

lemma tidy_cell: "goodCellText d t \<Longrightarrow> tidy t"
  unfolding goodCellText_def
proof (erule disjE)
  assume "quotedCellText t"
  then obtain v where v: "t = escapeCSV v" "noDoubleLf v" unfolding quotedCellText_def by blast
  have "noDoubleLf (dq # escBody v @ [dq])"
    using noDoubleLf_escBody[OF v(2)] by (simp add: noDoubleLf_Cons noDoubleLf_append)
  with v show "tidy t" by (simp add: tidy_def escapeCSV_body)
next
  assume p: "plainCellText d t"
  then have n: "t \<noteq> []" and a: "\<forall>c\<in>set t. c \<noteq> lf"
    by (auto simp: plainCellText_def list_all_iff isPlainChar_def)
  from n a have "hd t \<noteq> lf" "last t \<noteq> lf" by auto
  moreover from a have "noDoubleLf t" by (auto intro: noDoubleLf_plain)
  ultimately show "tidy t" using n by (simp add: tidy_def)
qed

lemma preprocess_lines:
  assumes "lines \<noteq> []" and "\<forall>l\<in>set lines. l \<noteq> []"
    and "\<forall>l\<in>set lines. \<forall>t\<in>set l. goodCellText d t"
  shows "preprocess (joinStrings [lf] (map (joinStrings [d]) lines)) =
           joinStrings [lf] (map (joinStrings [d]) lines)"
proof -
  have "\<forall>x\<in>set (map (joinStrings [d]) lines). tidy x"
  proof
    fix x assume "x \<in> set (map (joinStrings [d]) lines)"
    then obtain l where l: "l \<in> set lines" "x = joinStrings [d] l" by auto
    with assms(2,3) have "l \<noteq> []" "\<forall>t\<in>set l. tidy t" using tidy_cell by blast+
    with l show "tidy x" by (simp add: tidy_joinStrings)
  qed
  with assms(1) have "tidy (joinStrings [lf] (map (joinStrings [d]) lines))"
    by (intro tidy_joinStrings) simp_all
  then show ?thesis
    by (simp add: tidy_def preprocess_def collapse_id strip_id)
qed

lemma fromCSV_details:
  assumes "normalizeColumns_fromCSV (preprocess str) columns opts = Some (Inr cols)"
    and "csvToArray (preprocess str) (delimiterOf opts) = Some results"
  shows "fromCSV str columns opts =
      Some (collectResults
              (map (\<lambda>r. decodeRowWith cols (includeEmptyValues opts)
                           (drop (headerOffset opts) results ! r) (r + headerOffset opts + 1))
                 [0..<length results - headerOffset opts]))"
  using assms
  by (simp add: fromCSV_def Let_def mapIndexed_nth startIndex_headerOffset
      getRow_decodeRowWith[unfolded startIndex_headerOffset])

lemma collectResults_all_ok: "collectResults (map Inr xs) = Inr xs"
  by (induction xs) simp_all

lemma getProp_nonempty: "getProp ob k = x \<Longrightarrow> \<not> isEmptyValue x \<Longrightarrow> map_of ob k = Some x"
  by (cases "map_of ob k") (auto simp: getProp_def isEmptyValue_def)

text \<open>
  A column with the key \<^verbatim>\<open>__proto__\<close> stores nothing in the record: the round trip cannot
  hold for it.
\<close>

lemma fromCSV_proto_key:
  "fromCSV ''x'' (Some [ColumnKey ''__proto__''])
     \<lparr>includeHeader = False, includeEmptyValues = False, delimiter = None\<rparr>
   = Some (Inr [[]])"
  by (simp add: fromCSV_defs csvLoop.simps tokenizer_defs)

lemma map_of_setProp:
  "k \<noteq> ''__proto__'' \<Longrightarrow> map_of (setProp res k x) = (map_of res)(k \<mapsto> x)"
  by (simp add: setProp_def update_conv')

lemma decodeRow_prefix:
  assumes line: "line = map (\<lambda>c. Some (v c)) [0..<length cols]"
    and inv: "\<forall>c<length cols. \<forall>col k. cols ! c = Some col \<and> key col = Some k \<and> k \<noteq> [] \<longrightarrow>
                decodedValueWith col k (Some (v c)) rn c = getProp ob k \<and>
                \<not> isEmptyValue (getProp ob k)"
    and proto: "\<forall>c<length cols. columnKey (cols ! c) \<noteq> ''__proto__''"
    and n: "n \<le> length cols"
  shows "\<exists>res. foldl (\<lambda>acc c. case acc of Inl e \<Rightarrow> Inl e
                            | Inr result \<Rightarrow> decodeStepWith ie line result (cols ! c) rn c)
                 (Inr []) [0..<n] = Inr res \<and>
               map_of res = (\<lambda>k. if \<exists>c<n. columnKey (cols ! c) = k \<and> k \<noteq> [] then map_of ob k else None)"
  using n
proof (induction n)
  case 0
  show ?case by simp
next
  case (Suc n)
  then have nlt: "n < length cols" by simp
  from Suc obtain res where
    res: "foldl (\<lambda>acc c. case acc of Inl e \<Rightarrow> Inl e
                            | Inr result \<Rightarrow> decodeStepWith ie line result (cols ! c) rn c)
                 (Inr []) [0..<n] = Inr res"
         "map_of res = (\<lambda>k. if \<exists>c<n. columnKey (cols ! c) = k \<and> k \<noteq> [] then map_of ob k else None)"
    by auto
  have raw: "rawCell line n = Some (v n)" using nlt line by (simp add: rawCell_def)
  have keys: "(\<exists>c<Suc n. columnKey (cols ! c) = k \<and> k \<noteq> []) \<longleftrightarrow>
              (\<exists>c<n. columnKey (cols ! c) = k \<and> k \<noteq> []) \<or> (columnKey (cols ! n) = k \<and> k \<noteq> [])" for k
    by (auto simp: less_Suc_eq)
  show ?case
  proof (cases "columnKey (cols ! n) = []")
    case True
    then have step: "decodeStepWith ie line res (cols ! n) rn n = Inr res"
      by (auto simp: decodeStepWith_def columnKey_def split: option.splits)
    have k2: "(\<exists>c<Suc n. columnKey (cols ! c) = k \<and> k \<noteq> []) \<longleftrightarrow>
              (\<exists>c<n. columnKey (cols ! c) = k \<and> k \<noteq> [])" for k
      unfolding keys using True by auto
    have "foldl (\<lambda>acc c. case acc of Inl e \<Rightarrow> Inl e
                            | Inr result \<Rightarrow> decodeStepWith ie line result (cols ! c) rn c)
                 (Inr []) [0..<Suc n] = Inr res"
      using res(1) step by simp
    moreover have "map_of res =
        (\<lambda>k. if \<exists>c<Suc n. columnKey (cols ! c) = k \<and> k \<noteq> [] then map_of ob k else None)"
      unfolding k2 by (rule res(2))
    ultimately show ?thesis by blast
  next
    case False
    then obtain col k where ck: "cols ! n = Some col" "key col = Some k" "k \<noteq> []"
      by (auto simp: columnKey_def split: option.splits)
    then have kk: "columnKey (cols ! n) = k" by (simp add: columnKey_def)
    from inv nlt ck have v: "decodedValueWith col k (Some (v n)) rn n = getProp ob k"
      and ne: "\<not> isEmptyValue (getProp ob k)" by blast+
    have step: "decodeStepWith ie line res (cols ! n) rn n = Inr (setProp res k (getProp ob k))"
      using ck raw v ne by (simp add: decodeStepWith_def)
    have m: "map_of ob k = Some (getProp ob k)" using ne by (intro getProp_nonempty) simp_all
    from proto nlt kk have kp: "k \<noteq> ''__proto__''" by blast
    have "map_of (setProp res k (getProp ob k)) k' =
            (if \<exists>c<Suc n. columnKey (cols ! c) = k' \<and> k' \<noteq> [] then map_of ob k' else None)" for k'
      unfolding map_of_setProp[OF kp] res(2) keys kk using m ck(3) by (cases "k' = k") simp_all
    then have "map_of (setProp res k (getProp ob k)) =
            (\<lambda>k'. if \<exists>c<Suc n. columnKey (cols ! c) = k' \<and> k' \<noteq> [] then map_of ob k' else None)"
      by (simp add: fun_eq_iff)
    moreover have "foldl (\<lambda>acc c. case acc of Inl e \<Rightarrow> Inl e
                            | Inr result \<Rightarrow> decodeStepWith ie line result (cols ! c) rn c)
                 (Inr []) [0..<Suc n] = Inr (setProp res k (getProp ob k))"
      using res(1) step by simp
    ultimately show ?thesis by blast
  qed
qed

lemma decodeRow_roundtrip:
  assumes line: "line = map (\<lambda>c. Some (v c)) [0..<length cols]"
    and inv: "\<forall>c<length cols. \<forall>col k. cols ! c = Some col \<and> key col = Some k \<and> k \<noteq> [] \<longrightarrow>
                decodedValueWith col k (Some (v c)) rn c = getProp ob k \<and>
                \<not> isEmptyValue (getProp ob k)"
    and proto: "\<forall>c<length cols. columnKey (cols ! c) \<noteq> ''__proto__''"
    and cov: "\<forall>k\<in>fst ` set ob. \<exists>c<length cols. columnKey (cols ! c) = k \<and> k \<noteq> []"
  shows "\<exists>res. decodeRowWith cols ie line rn = Inr res \<and> map_of res = map_of ob"
proof -
  from decodeRow_prefix[OF line inv proto, of "length cols" ie] obtain res where
    res: "decodeRowWith cols ie line rn = Inr res"
         "map_of res = (\<lambda>k. if \<exists>c<length cols. columnKey (cols ! c) = k \<and> k \<noteq> [] then map_of ob k else None)"
    unfolding decodeRowWith_def by auto
  have "map_of res k = map_of ob k" for k
  proof (cases "\<exists>c<length cols. columnKey (cols ! c) = k \<and> k \<noteq> []")
    case True
    with res(2) show ?thesis by simp
  next
    case False
    with cov have "k \<notin> fst ` set ob" by blast
    then have "map_of ob k = None" by (simp add: map_of_eq_None_iff)
    with res(2) False show ?thesis by simp
  qed
  with res(1) show ?thesis by (auto simp: fun_eq_iff)
qed

lemma emittedCell_fun:
  "emittedCell cols rows opts r =
     (\<lambda>c. elementText (encodeCellWith (cols ! c) (rows ! r) (r + headerOffset opts + 1) c))"
  by (simp add: fun_eq_iff emittedCell_def)

lemma toCSV_as_lines:
  "toCSV rows (Some columns) opts =
     joinStrings [lf] (map (joinStrings [delimiterOf opts])
       ((if includeHeader opts then [map emittedHeader (map detectColumn columns)] else []) @
        map (\<lambda>r. map (emittedCell (map detectColumn columns) rows opts r) [0..<length columns])
          [0..<length rows]))"
  by (simp add: toCSV_def toCSV_lines_details normalizeColumns_toCSV_def arrayJoin_def
      headerLine_def emittedCell_fun emittedHeader_def comp_def)

text \<open>
  Claim C1, as amended. Let the records and the columns be non-empty lists, the delimiter
  a plain character other than the double quote, the line feed and the carriage return.
  Suppose every cell that \<^verbatim>\<open>toCSV\<close> emits (and every header cell, with \<^verbatim>\<open>includeHeader\<close>)
  is either an escaped non-empty string without two line feeds in a row, or a non-empty
  text without quotes, delimiters and line breaks; every column with a key parses the
  string read back from its cell, under the same details, to the record's value for that
  key, which is not empty; every key of a record is the key of a column; no column has
  the key \<^verbatim>\<open>__proto__\<close>; and every number emitted is a safe integer. (The keys that are
  read are then own keys of the records.) Then
  \<^verbatim>\<open>fromCSV(toCSV(records, columns, options), columns, options)\<close> returns records equal to
  the original ones field for field.
\<close>

theorem toCSV_fromCSV_roundtrip:
  assumes rows: "rows \<noteq> []" and columns: "columns \<noteq> []"
    and plain: "plainDelimiter (delimiterOf opts)"
    and d: "delimiterOf opts \<noteq> dq" "delimiterOf opts \<noteq> lf" "delimiterOf opts \<noteq> cr"
    and hdr: "includeHeader opts \<longrightarrow>
                (\<forall>c<length columns. goodCellText (delimiterOf opts) (emittedHeader (detectColumn (columns ! c))))"
    and cells: "\<forall>r<length rows. \<forall>c<length columns.
                  goodCellText (delimiterOf opts) (emittedCell (map detectColumn columns) rows opts r c)"
    and inv: "\<forall>r<length rows. \<forall>c<length columns. \<forall>col k.
                detectColumn (columns ! c) = Some col \<and> key col = Some k \<and> k \<noteq> [] \<longrightarrow>
                decodedValueWith col k
                  (Some (cellTextValue (emittedCell (map detectColumn columns) rows opts r c)))
                  (r + headerOffset opts + 1) c = getProp (rows ! r) k \<and>
                \<not> isEmptyValue (getProp (rows ! r) k)"
    and cov: "\<forall>r<length rows. \<forall>k\<in>fst ` set (rows ! r).
                \<exists>c<length columns. columnKey (detectColumn (columns ! c)) = k \<and> k \<noteq> []"
    and proto: "\<forall>c<length columns. columnKey (detectColumn (columns ! c)) \<noteq> ''__proto__''"
    and safe: "\<forall>r<length rows. \<forall>c<length columns.
                 safeNumber (encodeCellWith (map detectColumn columns ! c) (rows ! r)
                               (r + headerOffset opts + 1) c)"
  shows "\<exists>rs. fromCSV (toCSV rows (Some columns) opts) (Some columns) opts = Some (Inr rs) \<and>
              sameRecords rs rows"
proof -
  define cols where "cols = map detectColumn columns"
  define dl where "dl = delimiterOf opts"
  define off where "off = headerOffset opts"
  define val where "val = (\<lambda>r c. cellTextValue (emittedCell cols rows opts r c))"
  define dataLines where
    "dataLines = map (\<lambda>r. map (emittedCell cols rows opts r) [0..<length columns]) [0..<length rows]"
  define hdrLines where
    "hdrLines = (if includeHeader opts then [map emittedHeader cols] else [])"
  define csv where "csv = toCSV rows (Some columns) opts"
  have csv: "csv = joinStrings [lf] (map (joinStrings [dl]) (hdrLines @ dataLines))"
    unfolding csv_def hdrLines_def dataLines_def cols_def dl_def by (rule toCSV_as_lines)
  have len_cols: "length cols = length columns" by (simp add: cols_def)
  have ne: "hdrLines @ dataLines \<noteq> []" using rows by (simp add: dataLines_def)
  have lne: "\<forall>l\<in>set (hdrLines @ dataLines). l \<noteq> []"
    using columns by (auto simp: hdrLines_def dataLines_def cols_def)
  have good_hdr: "\<forall>l\<in>set hdrLines. \<forall>t\<in>set l. goodCellText dl t"
    using hdr by (auto simp: hdrLines_def cols_def dl_def in_set_conv_nth)
  have good_data: "\<forall>l\<in>set dataLines. \<forall>t\<in>set l. goodCellText dl t"
    using cells by (auto simp: dataLines_def cols_def dl_def)
  from good_hdr good_data have good: "\<forall>l\<in>set (hdrLines @ dataLines). \<forall>t\<in>set l. goodCellText dl t"
    by auto
  have tok: "csvToArray csv dl = Some (map (map (\<lambda>t. Some (cellTextValue t))) (hdrLines @ dataLines))"
    unfolding csv using d ne lne good unfolding dl_def[symmetric] by (intro csvToArray_lines)
  have pre: "preprocess csv = csv"
    unfolding csv using ne lne good by (rule preprocess_lines)
  have norm: "normalizeColumns_fromCSV (preprocess csv) (Some columns) opts = Some (Inr cols)"
    by (simp add: normalizeColumns_fromCSV_def cols_def)
  let ?results = "map (map (\<lambda>t. Some (cellTextValue t))) (hdrLines @ dataLines)"
  have off_len: "length hdrLines = off" by (simp add: hdrLines_def off_def headerOffset_def)
  have dropped: "drop off ?results = map (map (\<lambda>t. Some (cellTextValue t))) dataLines"
    using off_len by (simp add: drop_map)
  have count: "length ?results - off = length rows"
    using off_len by (simp add: dataLines_def)
  have tok': "csvToArray (preprocess csv) (delimiterOf opts) = Some ?results"
    unfolding pre using tok by (simp only: dl_def)
  note fd = fromCSV_details[OF norm tok']
  have from_eq: "fromCSV csv (Some columns) opts =
      Some (collectResults
              (map (\<lambda>r. decodeRowWith cols (includeEmptyValues opts)
                           (map (map (\<lambda>t. Some (cellTextValue t))) dataLines ! r) (r + off + 1))
                 [0..<length rows]))"
    using fd unfolding off_def[symmetric] dropped count .
  have row: "\<exists>res. decodeRowWith cols (includeEmptyValues opts)
                     (map (map (\<lambda>t. Some (cellTextValue t))) dataLines ! r) (r + off + 1) = Inr res \<and>
                   map_of res = map_of (rows ! r)"
    if r: "r < length rows" for r
  proof (rule decodeRow_roundtrip[where v = "val r"])
    show "map (map (\<lambda>t. Some (cellTextValue t))) dataLines ! r =
            map (\<lambda>c. Some (val r c)) [0..<length cols]"
      using r by (simp add: dataLines_def val_def len_cols)
    show "\<forall>c<length cols. \<forall>col k. cols ! c = Some col \<and> key col = Some k \<and> k \<noteq> [] \<longrightarrow>
            decodedValueWith col k (Some (val r c)) (r + off + 1) c = getProp (rows ! r) k \<and>
            \<not> isEmptyValue (getProp (rows ! r) k)"
    proof (intro allI impI)
      fix c col k
      assume c: "c < length cols" and "cols ! c = Some col \<and> key col = Some k \<and> k \<noteq> []"
      then have "c < length columns"
        and "detectColumn (columns ! c) = Some col \<and> key col = Some k \<and> k \<noteq> []"
        by (simp_all add: cols_def)
      with inv r show "decodedValueWith col k (Some (val r c)) (r + off + 1) c = getProp (rows ! r) k \<and>
            \<not> isEmptyValue (getProp (rows ! r) k)"
        unfolding val_def cols_def off_def by blast
    qed
    show "\<forall>c<length cols. columnKey (cols ! c) \<noteq> ''__proto__''"
      using proto by (simp add: cols_def)
    show "\<forall>k\<in>fst ` set (rows ! r). \<exists>c<length cols. columnKey (cols ! c) = k \<and> k \<noteq> []"
    proof
      fix k assume "k \<in> fst ` set (rows ! r)"
      with cov r obtain c where "c < length columns"
        "columnKey (detectColumn (columns ! c)) = k \<and> k \<noteq> []" by blast
      then show "\<exists>c<length cols. columnKey (cols ! c) = k \<and> k \<noteq> []"
        by (auto simp: cols_def)
    qed
  qed
  define rs where
    "rs = map (\<lambda>r. projr (decodeRowWith cols (includeEmptyValues opts)
                     (map (map (\<lambda>t. Some (cellTextValue t))) dataLines ! r) (r + off + 1)))
            [0..<length rows]"
  have ok1: "decodeRowWith cols (includeEmptyValues opts)
                (map (map (\<lambda>t. Some (cellTextValue t))) dataLines ! r) (r + off + 1)
             = Inr (rs ! r)" if r: "r < length rows" for r
    using row[OF r] r by (auto simp: rs_def)
  have all_ok: "map (\<lambda>r. decodeRowWith cols (includeEmptyValues opts)
                           (map (map (\<lambda>t. Some (cellTextValue t))) dataLines ! r) (r + off + 1))
                 [0..<length rows] = map Inr rs"
  proof (rule nth_equalityI)
    show "length (map (\<lambda>r. decodeRowWith cols (includeEmptyValues opts)
                           (map (map (\<lambda>t. Some (cellTextValue t))) dataLines ! r) (r + off + 1))
                 [0..<length rows]) = length (map Inr rs)"
      by (simp add: rs_def)
  next
    fix i
    assume "i < length (map (\<lambda>r. decodeRowWith cols (includeEmptyValues opts)
                           (map (map (\<lambda>t. Some (cellTextValue t))) dataLines ! r) (r + off + 1))
                 [0..<length rows])"
    then have i: "i < length rows" by simp
    then have "i < length rs" by (simp add: rs_def)
    with i ok1[OF i] show "map (\<lambda>r. decodeRowWith cols (includeEmptyValues opts)
                           (map (map (\<lambda>t. Some (cellTextValue t))) dataLines ! r) (r + off + 1))
                 [0..<length rows] ! i = map Inr rs ! i"
      by simp
  qed
  have same: "sameRecords rs rows"
    unfolding sameRecords_def list_all2_conv_all_nth
  proof (intro conjI allI impI)
    show "length rs = length rows" by (simp add: rs_def)
    fix i assume "i < length rs"
    then have i: "i < length rows" by (simp add: rs_def)
    from row[OF i] i show "map_of (rs ! i) = map_of (rows ! i)" by (auto simp: rs_def)
  qed
  have "fromCSV csv (Some columns) opts = Some (Inr rs)"
    unfolding from_eq all_ok collectResults_all_ok ..
  with same show ?thesis unfolding csv_def by blast
qed


text \<open>
  The round trip of claim C1 fails for a string that starts with \<^verbatim>\<open>=\<close>: it is emitted
  without quotes, and its comma, quotes and line feed are read as cell and row
  boundaries.
\<close>

theorem toCSV_fromCSV_roundtrip_counterexample:
  "fromCSV
     (toCSV [[(''name'', JStr [CHR ''='', CHR ''A'', CHR '','', CHR '' '', dq, CHR ''B'', dq, lf, CHR ''C''])]]
        (Some [ColumnKey ''name''])
        \<lparr>includeHeader = False, includeEmptyValues = False, delimiter = None\<rparr>)
     (Some [ColumnKey ''name''])
     \<lparr>includeHeader = False, includeEmptyValues = False, delimiter = None\<rparr>
   = Some (Inr [[(''name'', JStr ''=A'')], [(''name'', JStr ''C'')]]) \<and>
   \<not> sameRecords [[(''name'', JStr ''=A'')], [(''name'', JStr ''C'')]]
       [[(''name'', JStr [CHR ''='', CHR ''A'', CHR '','', CHR '' '', dq, CHR ''B'', dq, lf, CHR ''C''])]]"
proof -
  have enc: "toCSV [[(''name'', JStr [CHR ''='', CHR ''A'', CHR '','', CHR '' '', dq, CHR ''B'', dq, lf, CHR ''C''])]]
        (Some [ColumnKey ''name''])
        \<lparr>includeHeader = False, includeEmptyValues = False, delimiter = None\<rparr>
      = [CHR ''='', CHR ''A'', CHR '','', CHR '' '', dq, CHR ''B'', dq, lf, CHR ''C'']"
    by (simp add: toCSV_def toCSV_lines_def normalizeColumns_toCSV_def mapIndexed_def getLine_def
        toCSV_processColumn_def keyColumn_def propertyKey_def arrayJoin_def enumerate_eq_zip
        getProp_def finishCell_def elementText_def startsWithEquals_def)
  have dec: "fromCSV [CHR ''='', CHR ''A'', CHR '','', CHR '' '', dq, CHR ''B'', dq, lf, CHR ''C'']
     (Some [ColumnKey ''name''])
     \<lparr>includeHeader = False, includeEmptyValues = False, delimiter = None\<rparr>
   = Some (Inr [[(''name'', JStr ''=A'')], [(''name'', JStr ''C'')]])"
    by (simp add: fromCSV_defs collapseLineBreaks.simps csvLoop.simps tokenizer_defs)
  have ne: "\<not> sameRecords [[(''name'', JStr ''=A'')], [(''name'', JStr ''C'')]]
       [[(''name'', JStr [CHR ''='', CHR ''A'', CHR '','', CHR '' '', dq, CHR ''B'', dq, lf, CHR ''C''])]]"
    by (simp add: sameRecords_def)
  from enc dec ne show ?thesis by simp
qed

text \<open>
  The round trip for the string \<^verbatim>\<open>A, "B"\<close>, line feed, \<^verbatim>\<open>C\<close> through a single text
  column.
\<close>

theorem toCSV_fromCSV_roundtrip_witness:
  "\<exists>rs. fromCSV
           (toCSV [[(''name'', JStr [CHR ''A'', CHR '','', CHR '' '', dq, CHR ''B'', dq, lf, CHR ''C''])]]
              (Some [ColumnKey ''name''])
              \<lparr>includeHeader = False, includeEmptyValues = False, delimiter = None\<rparr>)
           (Some [ColumnKey ''name''])
           \<lparr>includeHeader = False, includeEmptyValues = False, delimiter = None\<rparr> = Some (Inr rs) \<and>
         sameRecords rs [[(''name'', JStr [CHR ''A'', CHR '','', CHR '' '', dq, CHR ''B'', dq, lf, CHR ''C''])]]"
proof -
  let ?s = "[CHR ''A'', CHR '','', CHR '' '', dq, CHR ''B'', dq, lf, CHR ''C'']"
  let ?rows = "[[(''name'', JStr ?s)]]"
  let ?columns = "[ColumnKey ''name'']"
  let ?opts = "\<lparr>includeHeader = False, includeEmptyValues = False, delimiter = None\<rparr>"
  have cell: "emittedCell (map detectColumn ?columns) ?rows ?opts 0 0 = escapeCSV ?s"
    by (simp add: emittedCell_def encodeCellWith_def keyColumn_def finishCell_def getProp_def
        propertyKey_def elementText_def startsWithEquals_def looksLikeDate_def isDigit_def)
  have q: "quotedCellText (escapeCSV ?s)"
    unfolding quotedCellText_def by (rule exI[of _ ?s]) simp
  show ?thesis
  proof (rule toCSV_fromCSV_roundtrip)
    show "?rows \<noteq> []" by simp
    show "?columns \<noteq> []" by simp
    show "plainDelimiter (delimiterOf ?opts)" by (simp add: plainDelimiter_def delimiterOf_def)
    show "delimiterOf ?opts \<noteq> dq" by (simp add: delimiterOf_def)
    show "delimiterOf ?opts \<noteq> lf" by (simp add: delimiterOf_def)
    show "delimiterOf ?opts \<noteq> cr" by (simp add: delimiterOf_def)
    show "includeHeader ?opts \<longrightarrow>
            (\<forall>c<length ?columns. goodCellText (delimiterOf ?opts) (emittedHeader (detectColumn (?columns ! c))))"
      by simp
    show "\<forall>r<length ?rows. \<forall>c<length ?columns.
            goodCellText (delimiterOf ?opts) (emittedCell (map detectColumn ?columns) ?rows ?opts r c)"
      using cell q by (simp add: goodCellText_def)
    show "\<forall>r<length ?rows. \<forall>c<length ?columns. \<forall>col k.
            detectColumn (?columns ! c) = Some col \<and> key col = Some k \<and> k \<noteq> [] \<longrightarrow>
            decodedValueWith col k
              (Some (cellTextValue (emittedCell (map detectColumn ?columns) ?rows ?opts r c)))
              (r + headerOffset ?opts + 1) c = getProp (?rows ! r) k \<and>
            \<not> isEmptyValue (getProp (?rows ! r) k)"
      using cell
      by (auto simp: cellTextValue_quoted decodedValueWith_def keyColumn_def getProp_def
          isEmptyValue_def)
    show "\<forall>r<length ?rows. \<forall>k\<in>fst ` set (?rows ! r).
            \<exists>c<length ?columns. columnKey (detectColumn (?columns ! c)) = k \<and> k \<noteq> []"
      by (simp add: columnKey_def keyColumn_def)
    show "\<forall>c<length ?columns. columnKey (detectColumn (?columns ! c)) \<noteq> ''__proto__''"
      by (simp add: columnKey_def keyColumn_def)
    show "\<forall>r<length ?rows. \<forall>c<length ?columns.
            safeNumber (encodeCellWith (map detectColumn ?columns ! c) (?rows ! r)
                          (r + headerOffset ?opts + 1) c)"
      by (simp add: safeNumber_def encodeCellWith_def keyColumn_def finishCell_def getProp_def
          propertyKey_def startsWithEquals_def looksLikeDate_def isDigit_def)
  qed
qed

end
